theory Spec2Isabelle
  imports Complex_Main "HOL-Library.Monad_Syntax" "HOL-Library.Multiset"
begin

section \<open>Card model (poker.ts, lines 1--39)\<close>

text \<open>
  The TypeScript unions \<open>Suit\<close> and \<open>Rank\<close> are string-literal types; each literal
  is one constructor here. A \<open>Card\<close> is the object \<open>{ rank, suit }\<close>.
\<close>

datatype Suit = Su_s | Su_h | Su_d | Su_c

datatype Rank = R2 | R3 | R4 | R5 | R6 | R7 | R8 | R9 | RT | RJ | RQ | RK | RA

record Card =
  rank :: Rank
  suit :: Suit

text \<open>\<open>RANK_VALUE\<close>: the ordinal of a rank. JavaScript numbers that only ever hold
  small integers are modelled as \<open>int\<close>.\<close>

fun RANK_VALUE :: "Rank \<Rightarrow> int" where
  "RANK_VALUE R2 = 2"
| "RANK_VALUE R3 = 3"
| "RANK_VALUE R4 = 4"
| "RANK_VALUE R5 = 5"
| "RANK_VALUE R6 = 6"
| "RANK_VALUE R7 = 7"
| "RANK_VALUE R8 = 8"
| "RANK_VALUE R9 = 9"
| "RANK_VALUE RT = 10"
| "RANK_VALUE RJ = 11"
| "RANK_VALUE RQ = 12"
| "RANK_VALUE RK = 13"
| "RANK_VALUE RA = 14"

definition SUITS :: "Suit list" where
  "SUITS = [Su_s, Su_h, Su_d, Su_c]"

definition RANKS :: "Rank list" where
  "RANKS = [R2, R3, R4, R5, R6, R7, R8, R9, RT, RJ, RQ, RK, RA]"

fun rankChar :: "Rank \<Rightarrow> char" where
  "rankChar R2 = CHR ''2''"
| "rankChar R3 = CHR ''3''"
| "rankChar R4 = CHR ''4''"
| "rankChar R5 = CHR ''5''"
| "rankChar R6 = CHR ''6''"
| "rankChar R7 = CHR ''7''"
| "rankChar R8 = CHR ''8''"
| "rankChar R9 = CHR ''9''"
| "rankChar RT = CHR ''T''"
| "rankChar RJ = CHR ''J''"
| "rankChar RQ = CHR ''Q''"
| "rankChar RK = CHR ''K''"
| "rankChar RA = CHR ''A''"

fun suitChar :: "Suit \<Rightarrow> char" where
  "suitChar Su_s = CHR ''s''"
| "suitChar Su_h = CHR ''h''"
| "suitChar Su_d = CHR ''d''"
| "suitChar Su_c = CHR ''c''"

text \<open>\<open>cardToString\<close>: the template string \<open>`${card.rank}${card.suit}`\<close>.\<close>

definition cardToString :: "Card \<Rightarrow> string" where
  "cardToString crd = [rankChar (rank crd), suitChar (suit crd)]"

section \<open>Deck builder (poker.ts, lines 41--51)\<close>

text \<open>
  \<open>createDeck\<close>: the set \<open>used\<close> holds the string keys of the excluded cards; the
  nested loops run over \<open>SUITS\<close> (outer) and \<open>RANKS\<close> (inner) and push every card
  whose key is not in \<open>used\<close>.
\<close>

definition createDeck :: "Card list \<Rightarrow> Card list" where
  "createDeck exclude =
     (let used = set (map cardToString exclude) in
      concat (map (\<lambda>s.
        concat (map (\<lambda>r.
          (let crd = \<lparr>rank = r, suit = s\<rparr> in
           if cardToString crd \<notin> used then [crd] else [])) RANKS)) SUITS))"

text \<open>The canonical order, written out: suit-major, rank-minor.\<close>

definition fullDeck :: "Card list" where
  "fullDeck = concat (map (\<lambda>s. map (\<lambda>r. \<lparr>rank = r, suit = s\<rparr>) RANKS) SUITS)"

section \<open>JavaScript array and Map primitives\<close>

text \<open>
  \<open>Array.prototype.sort(cmp)\<close> is a stable sort by the comparator: an insertion sort
  that puts an element before the first one it does not compare greater than.
\<close>

fun insert_by :: "('a \<Rightarrow> 'a \<Rightarrow> int) \<Rightarrow> 'a \<Rightarrow> 'a list \<Rightarrow> 'a list" where
  "insert_by cmp x [] = [x]"
| "insert_by cmp x (y # ys) = (if cmp x y \<le> 0 then x # y # ys else y # insert_by cmp x ys)"

definition js_sort :: "('a \<Rightarrow> 'a \<Rightarrow> int) \<Rightarrow> 'a list \<Rightarrow> 'a list" where
  "js_sort cmp xs = foldr (insert_by cmp) xs []"

text \<open>The comparator \<open>(a, b) => b - a\<close>: descending order.\<close>

definition desc :: "int \<Rightarrow> int \<Rightarrow> int" where
  "desc a b = b - a"

text \<open>Reading \<open>xs[i]\<close>: \<open>undefined\<close> (here \<open>None\<close>) beyond the end of the array.\<close>

definition js_nth :: "'a list \<Rightarrow> nat \<Rightarrow> 'a option" where
  "js_nth xs i = (if i < length xs then Some (xs ! i) else None)"

text \<open>\<open>[...new Set(xs)]\<close>: the elements of \<open>xs\<close> without repetition, each at its first
  occurrence.\<close>

definition uniq :: "'a list \<Rightarrow> 'a list" where
  "uniq xs = rev (remdups (rev xs))"

text \<open>
  A \<open>Map<number, number>\<close> keeps its keys in insertion order: an association list.
  \<open>map_get0 m k\<close> is \<open>m.get(k) ?? 0\<close> and \<open>map_set m k v\<close> is \<open>m.set(k, v)\<close>.
  \<open>countRanks\<close> is the counting loop that \<open>evaluate5\<close> and \<open>getBestHandLabel\<close> share.
\<close>

definition map_get0 :: "(int \<times> int) list \<Rightarrow> int \<Rightarrow> int" where
  "map_get0 m k = (case map_of m k of None \<Rightarrow> 0 | Some v \<Rightarrow> v)"

fun map_set :: "(int \<times> int) list \<Rightarrow> int \<Rightarrow> int \<Rightarrow> (int \<times> int) list" where
  "map_set [] k v = [(k, v)]"
| "map_set ((k', v') # m) k v = (if k' = k then (k, v) # m else (k', v') # map_set m k v)"

definition countRanks :: "int list \<Rightarrow> (int \<times> int) list" where
  "countRanks rs = foldl (\<lambda>m r. map_set m r (map_get0 m r + 1)) [] rs"

section \<open>Rank comparator (poker.ts, lines 193--200)\<close>

text \<open>
  The elements of the two arrays are JavaScript numbers, modelled as \<open>int\<close>. The code
  subtracts doubles; on integers of magnitude up to \<open>2^52\<close> that difference is exact and
  equals the integer difference taken here. The arrays the program passes hold a
  category and rank values, all between 0 and 14 (\<open>descriptor\<close> below); the theorem on
  the comparator as an order is stated for such arrays.
\<close>

text \<open>\<open>get0 a i\<close> is \<open>a[i] ?? 0\<close>.\<close>

definition get0 :: "int list \<Rightarrow> nat \<Rightarrow> int" where
  "get0 a i = (case js_nth a i of None \<Rightarrow> 0 | Some v \<Rightarrow> v)"

function compareLoop :: "int list \<Rightarrow> int list \<Rightarrow> nat \<Rightarrow> nat \<Rightarrow> int" where
  "compareLoop a b len i =
     (if i < len then
        (let diff = get0 a i - get0 b i in
         if diff \<noteq> 0 then diff else compareLoop a b len (i + 1))
      else 0)"
  by pat_completeness auto
termination
  by (relation "measure (\<lambda>(a, b, len, i). len - i)") auto

definition compareRanks :: "int list \<Rightarrow> int list \<Rightarrow> int" where
  "compareRanks a b = compareLoop a b (max (length a) (length b)) 0"

section \<open>5-card evaluator (poker.ts, lines 131--191)\<close>

function straightScan :: "int list \<Rightarrow> nat \<Rightarrow> int option" where
  "straightScan srt i =
     (if i + 5 \<le> length srt then
        (let slice = take 5 (drop i srt) in
         if slice ! 0 - slice ! 4 = 4 then Some (slice ! 0) else straightScan srt (i + 1))
      else None)"
  by pat_completeness auto
termination
  by (relation "measure (\<lambda>(srt, i). length srt - i)") auto

definition getStraightHigh :: "int list \<Rightarrow> int option" where
  "getStraightHigh ranksDesc =
     (if length ranksDesc < 5 then None
      else
        (let srt = js_sort desc (uniq ranksDesc) in
         case straightScan srt 0 of
           Some h \<Rightarrow> Some h
         | None \<Rightarrow>
             if 14 \<in> set srt \<and> 5 \<in> set srt \<and> 4 \<in> set srt \<and> 3 \<in> set srt \<and> 2 \<in> set srt
             then Some 5 else None))"

text \<open>A \<open>number | null\<close> used as a condition: \<open>null\<close> and \<open>0\<close> are falsy.\<close>

definition truthy :: "int option \<Rightarrow> bool" where
  "truthy v = (case v of None \<Rightarrow> False | Some n \<Rightarrow> n \<noteq> 0)"

text \<open>The comparator \<open>(a, b) => (b.count - a.count) || (b.rank - a.rank)\<close> on groups;
  a group \<open>{ rank, count }\<close> is the pair \<open>(rank, count)\<close> of the Map entry it is made of.\<close>

definition cmpGroup :: "int \<times> int \<Rightarrow> int \<times> int \<Rightarrow> int" where
  "cmpGroup a b = (if snd b - snd a \<noteq> 0 then snd b - snd a else fst b - fst a)"

text \<open>
  \<open>isFlush\<close> is \<open>cards.every((card) => card.suit === cards[0].suit)\<close>, which is
  true of the empty array.

  \<open>evaluate5\<close>. The array may hold \<open>undefined\<close> (a \<open>None\<close>), which \<open>pick\<close> produces
  for an index beyond the cards; reading \<open>.rank\<close> or \<open>.count\<close> of \<open>undefined\<close> throws a
  TypeError, the only exception of this program: the result \<open>None\<close>.
\<close>

definition isFlush :: "Card list \<Rightarrow> bool" where
  "isFlush cs = (case cs of [] \<Rightarrow> True | c0 # _ \<Rightarrow> list_all (\<lambda>c. suit c = suit c0) cs)"

definition evaluate5 :: "Card option list \<Rightarrow> int list option" where
  "evaluate5 cards = do {
     cs \<leftarrow> those cards;
     let ranks = js_sort desc (map (\<lambda>c. RANK_VALUE (rank c)) cs);
     let flush = isFlush cs;
     let counts = countRanks ranks;
     let uniqueRanks = js_sort desc (map fst counts);
     let straightHigh = getStraightHigh uniqueRanks;
     if flush \<and> truthy straightHigh then Some [8, the straightHigh]
     else do {
       let groups = js_sort cmpGroup counts;
       g0 \<leftarrow> js_nth groups 0;
       if snd g0 = 4 then do {
         g1 \<leftarrow> js_nth groups 1;
         Some [7, fst g0, fst g1] }
       else do {
         fullHouse \<leftarrow> (if snd g0 = 3 then map_option (\<lambda>g1. snd g1 = 2) (js_nth groups 1)
                       else Some False);
         if fullHouse then do {
           g1 \<leftarrow> js_nth groups 1;
           Some [6, fst g0, fst g1] }
         else if flush then Some (5 # ranks)
         else if truthy straightHigh then Some [4, the straightHigh]
         else if snd g0 = 3 then
           Some (3 # fst g0 # js_sort desc (map fst (drop 1 groups)))
         else do {
           twoPair \<leftarrow> (if snd g0 = 2 then map_option (\<lambda>g1. snd g1 = 2) (js_nth groups 1)
                       else Some False);
           if twoPair then do {
             g1 \<leftarrow> js_nth groups 1;
             g2 \<leftarrow> js_nth groups 2;
             Some [2, max (fst g0) (fst g1), min (fst g0) (fst g1), fst g2] }
           else if snd g0 = 2 then
             Some (1 # fst g0 # js_sort desc (map fst (drop 1 groups)))
           else Some (0 # ranks) } } } }"

section \<open>7-card selector and combinations (poker.ts, lines 102--129, 232--256)\<close>

definition COMBOS_7_5 :: "nat list list" where
  "COMBOS_7_5 =
     [[a, b, c, d, e]. a \<leftarrow> [0..<3], b \<leftarrow> [a + 1..<4], c \<leftarrow> [b + 1..<5],
                       d \<leftarrow> [c + 1..<6], e \<leftarrow> [d + 1..<7]]"

text \<open>\<open>pick\<close>: \<open>cards[idx]\<close> is \<open>undefined\<close> for an index beyond the array.\<close>

definition pick :: "Card option list \<Rightarrow> nat list \<Rightarrow> Card option list" where
  "pick cards combo = map (\<lambda>idx. case js_nth cards idx of None \<Rightarrow> None | Some c \<Rightarrow> c) combo"

text \<open>The loop \<open>for (i = 1; i < combos.length; i += 1)\<close> of \<open>evaluate7\<close> and of
  \<open>getBestHandLabel\<close>, over the combinations after the first.\<close>

fun bestLoop :: "Card option list \<Rightarrow> nat list list \<Rightarrow> int list \<Rightarrow> int list option" where
  "bestLoop cards [] best = Some best"
| "bestLoop cards (combo # rest) best = do {
     hand \<leftarrow> evaluate5 (pick cards combo);
     bestLoop cards rest (if compareRanks hand best > 0 then hand else best) }"

definition evaluate7 :: "Card option list \<Rightarrow> int list option" where
  "evaluate7 cards = do {
     c0 \<leftarrow> js_nth COMBOS_7_5 0;
     best \<leftarrow> evaluate5 (pick cards c0);
     bestLoop cards (drop 1 COMBOS_7_5) best }"

text \<open>
  \<open>getCombos\<close>: the closure \<open>backtrack\<close> pushes a copy of \<open>combo\<close> when it holds 5
  indices and otherwise extends it by every index from \<open>start\<close> on; \<open>indices[i] = i\<close>.
  The cache only stores results of this pure computation.
\<close>

function backtrack :: "nat \<Rightarrow> nat \<Rightarrow> nat list \<Rightarrow> nat list list" where
  "backtrack n start combo =
     (if length combo = 5 then [combo]
      else concat (map (\<lambda>i. backtrack n (i + 1) (combo @ [i])) [start..<n]))"
  by pat_completeness auto
termination
  by (relation "measure (\<lambda>(n, start, combo). n - start)") auto

definition getCombos :: "nat \<Rightarrow> nat list list" where
  "getCombos len = (if len = 7 then COMBOS_7_5 else backtrack len 0 [])"

section \<open>Partial-hand label (poker.ts, lines 210--230, 258--279)\<close>

fun rankToLabel :: "int \<Rightarrow> string" where
  "rankToLabel r =
     (if r = 8 then ''Straight Flush''
      else if r = 7 then ''Four of a Kind''
      else if r = 6 then ''Full House''
      else if r = 5 then ''Flush''
      else if r = 4 then ''Straight''
      else if r = 3 then ''Three of a Kind''
      else if r = 2 then ''Two Pair''
      else if r = 1 then ''One Pair''
      else ''High Card'')"

definition getBestHandLabel :: "Card list \<Rightarrow> string option" where
  "getBestHandLabel cards =
     (if length cards < 5 then
        (let counts = countRanks (map (\<lambda>c. RANK_VALUE (rank c)) cards);
             vals = js_sort desc (map snd counts)
         in if js_nth vals 0 = Some 2 then Some ''One Pair''
            else if js_nth vals 0 = Some 3 then Some ''Three of a Kind''
            else Some ''High Card'')
      else do {
        let combos = getCombos (length cards);
        c0 \<leftarrow> js_nth combos 0;
        first \<leftarrow> evaluate5 (pick (map Some cards) c0);
        best \<leftarrow> bestLoop (map Some cards) (drop 1 combos) first;
        Some (case js_nth best 0 of None \<Rightarrow> ''High Card'' | Some r \<Rightarrow> rankToLabel r) })"

section \<open>Monte Carlo simulator (poker.ts, lines 53--100)\<close>

text \<open>
  \<open>Math.random()\<close> is an explicit source \<open>rnd\<close>: \<open>rnd k\<close> is the value of the
  \<open>k\<close>-th call, a number in \<open>[0, 1)\<close>. The mutable deck and the number of calls made
  so far are threaded through as the state \<open>(deck, k)\<close>. \<open>drawRandom\<close>:
  \<open>splice(idx, 1)\<close> removes the element at \<open>idx\<close> and yields it; on an empty deck it
  removes nothing and the card is \<open>undefined\<close>. The index is the floor of the exact
  product \<open>rnd k * length\<close>; the code floors the product rounded to a double, which is
  an index of the deck too, so every run of the code is the run of the model on some
  source \<open>rnd\<close>, and what holds for every source holds for the code.
\<close>

text \<open>What \<open>Math.random\<close> guarantees of its values.\<close>

definition validRandom :: "(nat \<Rightarrow> real) \<Rightarrow> bool" where
  "validRandom rnd = (\<forall>k. 0 \<le> rnd k \<and> rnd k < 1)"

definition drawRandom :: "(nat \<Rightarrow> real) \<Rightarrow> Card list \<times> nat \<Rightarrow> Card option \<times> (Card list \<times> nat)" where
  "drawRandom rnd st =
     (case st of (deck, k) \<Rightarrow>
        (let idx = nat \<lfloor>rnd k * real (length deck)\<rfloor> in
         (js_nth deck idx, (take idx deck @ drop (idx + 1) deck, k + 1))))"

fun drawOpponents ::
  "(nat \<Rightarrow> real) \<Rightarrow> nat \<Rightarrow> Card list \<times> nat \<Rightarrow> Card option list list \<times> (Card list \<times> nat)" where
  "drawOpponents rnd 0 st = ([], st)"
| "drawOpponents rnd (Suc n) st =
     (let (c1, st1) = drawRandom rnd st;
          (c2, st2) = drawRandom rnd st1;
          (rest, st3) = drawOpponents rnd n st2
      in ([c1, c2] # rest, st3))"

function fillBoard ::
  "(nat \<Rightarrow> real) \<Rightarrow> Card option list \<Rightarrow> Card list \<times> nat \<Rightarrow> Card option list \<times> (Card list \<times> nat)" where
  "fillBoard rnd fullBoard st =
     (if length fullBoard < 5 then
        (let (c, st1) = drawRandom rnd st in fillBoard rnd (fullBoard @ [c]) st1)
      else (fullBoard, st))"
  by pat_completeness auto
termination
  by (relation "measure (\<lambda>(rnd, fullBoard, st). 5 - length fullBoard)") auto

text \<open>The \<open>forEach\<close> over all opponents: the state is \<open>(bestRank, winners)\<close>; the hero
  is the index \<open>-1\<close>.\<close>

fun tally ::
  "Card option list \<Rightarrow> Card option list list \<Rightarrow> int \<Rightarrow> int list \<times> int list \<Rightarrow> (int list \<times> int list) option" where
  "tally fullBoard [] index acc = Some acc"
| "tally fullBoard (hand # rest) index (bestRank, winners) = do {
     rnk \<leftarrow> evaluate7 (hand @ fullBoard);
     let cmp = compareRanks rnk bestRank;
     tally fullBoard rest (index + 1)
       (if cmp > 0 then (rnk, [index])
        else if cmp = 0 then (bestRank, winners @ [index])
        else (bestRank, winners)) }"

text \<open>
  One pass of the body of the outer loop, in its two halves. \<open>deal\<close> builds the deck,
  draws the unknown opponents and completes the board; it yields both and the number of
  random values used so far. \<open>showdown\<close> evaluates the hero and every opponent and
  yields the credit that is added to \<open>equity\<close>. In \<open>showdown\<close>, \<open>trial\<close>, \<open>trials\<close>
  and \<open>calculateWinRate\<close> the quotients and the running sum are exact reals: this is the
  arithmetic of the code as long as every intermediate value is a double, as it is when
  all credits are whole numbers. The arithmetic of doubles in general is in
  \<open>showdownFl\<close>, \<open>trialFl\<close>, \<open>trialsFl\<close> and \<open>calculateWinRateFl\<close> below.
\<close>

definition deal ::
  "(nat \<Rightarrow> real) \<Rightarrow> Card list \<Rightarrow> Card list \<Rightarrow> Card list list \<Rightarrow> nat \<Rightarrow> nat
     \<Rightarrow> Card option list list \<times> Card option list \<times> nat" where
  "deal rnd hero board knownOpponents unknownOpponentsCount k =
     (let deck = createDeck (hero @ board @ concat knownOpponents);
          (unknownOpponents, st1) = drawOpponents rnd unknownOpponentsCount (deck, k);
          (fullBoard, st2) = fillBoard rnd (map Some board) st1
      in (unknownOpponents, fullBoard, snd st2))"

definition showdown ::
  "Card list \<Rightarrow> Card list list \<Rightarrow> Card option list list \<Rightarrow> Card option list \<Rightarrow> real option" where
  "showdown hero knownOpponents unknownOpponents fullBoard = do {
     heroRank \<leftarrow> evaluate7 (map Some hero @ fullBoard);
     (bestRank, winners) \<leftarrow>
       tally fullBoard (map (map Some) knownOpponents @ unknownOpponents) 0 (heroRank, [-1]);
     Some (if -1 \<in> set winners then 1 / real (length winners) else 0) }"

definition trial ::
  "(nat \<Rightarrow> real) \<Rightarrow> Card list \<Rightarrow> Card list \<Rightarrow> Card list list \<Rightarrow> nat \<Rightarrow> nat \<Rightarrow> (real \<times> nat) option" where
  "trial rnd hero board knownOpponents unknownOpponentsCount k =
     (case deal rnd hero board knownOpponents unknownOpponentsCount k of
        (unknownOpponents, fullBoard, k') \<Rightarrow>
          map_option (\<lambda>credit. (credit, k'))
            (showdown hero knownOpponents unknownOpponents fullBoard))"

fun trials ::
  "(nat \<Rightarrow> real) \<Rightarrow> Card list \<Rightarrow> Card list \<Rightarrow> Card list list \<Rightarrow> nat \<Rightarrow> nat \<Rightarrow> real \<Rightarrow> nat \<Rightarrow> real option" where
  "trials rnd hero board knownOpponents unknownOpponentsCount 0 equity k = Some equity"
| "trials rnd hero board knownOpponents unknownOpponentsCount (Suc n) equity k = do {
     (credit, k') \<leftarrow> trial rnd hero board knownOpponents unknownOpponentsCount k;
     trials rnd hero board knownOpponents unknownOpponentsCount n (equity + credit) k' }"

text \<open>
  The same loop body in the arithmetic of doubles. \<open>fl\<close> is the rounding of a real
  number to a double: the code's \<open>1 / winners.length\<close> is \<open>fl (1 / length winners)\<close>,
  its \<open>equity += x\<close> is \<open>equity := fl (equity + x)\<close>, and nothing is added when the hero
  is not among the winners. The rounding is a parameter, so that what is proved for
  every \<open>fl\<close> holds for the rounding of the machine; with the identity for \<open>fl\<close> these
  are the functions above.
\<close>

definition showdownFl ::
  "(real \<Rightarrow> real) \<Rightarrow> Card list \<Rightarrow> Card list list \<Rightarrow> Card option list list \<Rightarrow> Card option list
     \<Rightarrow> real \<Rightarrow> real option" where
  "showdownFl fl hero knownOpponents unknownOpponents fullBoard equity = do {
     heroRank \<leftarrow> evaluate7 (map Some hero @ fullBoard);
     (bestRank, winners) \<leftarrow>
       tally fullBoard (map (map Some) knownOpponents @ unknownOpponents) 0 (heroRank, [-1]);
     Some (if -1 \<in> set winners then fl (equity + fl (1 / real (length winners))) else equity) }"

definition trialFl ::
  "(real \<Rightarrow> real) \<Rightarrow> (nat \<Rightarrow> real) \<Rightarrow> Card list \<Rightarrow> Card list \<Rightarrow> Card list list \<Rightarrow> nat
     \<Rightarrow> real \<Rightarrow> nat \<Rightarrow> (real \<times> nat) option" where
  "trialFl fl rnd hero board knownOpponents unknownOpponentsCount equity k =
     (case deal rnd hero board knownOpponents unknownOpponentsCount k of
        (unknownOpponents, fullBoard, k') \<Rightarrow>
          map_option (\<lambda>equity'. (equity', k'))
            (showdownFl fl hero knownOpponents unknownOpponents fullBoard equity))"

fun trialsFl ::
  "(real \<Rightarrow> real) \<Rightarrow> (nat \<Rightarrow> real) \<Rightarrow> Card list \<Rightarrow> Card list \<Rightarrow> Card list list \<Rightarrow> nat
     \<Rightarrow> nat \<Rightarrow> real \<Rightarrow> nat \<Rightarrow> real option" where
  "trialsFl fl rnd hero board knownOpponents unknownOpponentsCount 0 equity k = Some equity"
| "trialsFl fl rnd hero board knownOpponents unknownOpponentsCount (Suc n) equity k = do {
     (equity', k') \<leftarrow> trialFl fl rnd hero board knownOpponents unknownOpponentsCount equity k;
     trialsFl fl rnd hero board knownOpponents unknownOpponentsCount n equity' k' }"

text \<open>A JavaScript number that may be \<open>NaN\<close>: \<open>0 / 0\<close> when \<open>iterations\<close> is 0.\<close>

datatype number = Num real | NaN

record WinRateResult =
  equity :: number
  iterations :: nat

text \<open>
  \<open>calculateWinRate\<close>: the parameter object is destructured in the signature, so its
  fields are the arguments; the optional \<open>iterations\<close> defaults to 5000. The counts
  \<open>numPlayers\<close> and \<open>iterations\<close> are whole numbers.
\<close>

definition calculateWinRate ::
  "(nat \<Rightarrow> real) \<Rightarrow> Card list \<Rightarrow> Card list \<Rightarrow> int \<Rightarrow> Card list list \<Rightarrow> nat option \<Rightarrow> WinRateResult option" where
  "calculateWinRate rnd hero board numPlayers knownOpponents iterationsOpt =
     (let its = (case iterationsOpt of None \<Rightarrow> 5000 | Some n \<Rightarrow> n);
          unknownOpponentsCount = nat (max (numPlayers - 1 - int (length knownOpponents)) 0)
      in do {
        total \<leftarrow> trials rnd hero board knownOpponents unknownOpponentsCount its 0 0;
        Some \<lparr>equity = (if its = 0 then NaN else Num (total / real its)), iterations = its\<rparr> })"

text \<open>\<open>calculateWinRate\<close> in the arithmetic of doubles: the final quotient
  \<open>equity / iterations\<close> is rounded as well.\<close>

definition calculateWinRateFl ::
  "(real \<Rightarrow> real) \<Rightarrow> (nat \<Rightarrow> real) \<Rightarrow> Card list \<Rightarrow> Card list \<Rightarrow> int \<Rightarrow> Card list list
     \<Rightarrow> nat option \<Rightarrow> WinRateResult option" where
  "calculateWinRateFl fl rnd hero board numPlayers knownOpponents iterationsOpt =
     (let its = (case iterationsOpt of None \<Rightarrow> 5000 | Some n \<Rightarrow> n);
          unknownOpponentsCount = nat (max (numPlayers - 1 - int (length knownOpponents)) 0)
      in do {
        total \<leftarrow> trialsFl fl rnd hero board knownOpponents unknownOpponentsCount its 0 0;
        Some \<lparr>equity = (if its = 0 then NaN else Num (fl (total / real its))), iterations = its\<rparr> })"

section \<open>Closed form of the 5-card evaluator\<close>

text \<open>
  The value of \<open>evaluate5\<close> in closed form, on the five rank values in descending
  order and the flush flag: one line for each pattern of equal neighbours.
\<close>

fun handValue :: "int list \<Rightarrow> bool \<Rightarrow> int list" where
  "handValue [a, b, c, d, e] fl =
     (if a = b \<and> b = c \<and> c = d \<and> d = e then (if fl then [5, a, b, c, d, e] else [0, a, b, c, d, e])
      else if a = b \<and> b = c \<and> c = d then [7, a, e]
      else if b = c \<and> c = d \<and> d = e then [7, b, a]
      else if a = b \<and> b = c \<and> d = e then [6, a, d]
      else if a = b \<and> c = d \<and> d = e then [6, c, a]
      else if a \<noteq> b \<and> b \<noteq> c \<and> c \<noteq> d \<and> d \<noteq> e \<and> fl \<and> a - e = 4 then [8, a]
      else if fl \<and> [a, b, c, d, e] = [14, 5, 4, 3, 2] then [8, 5]
      else if fl then [5, a, b, c, d, e]
      else if a \<noteq> b \<and> b \<noteq> c \<and> c \<noteq> d \<and> d \<noteq> e \<and> a - e = 4 then [4, a]
      else if [a, b, c, d, e] = [14, 5, 4, 3, 2] then [4, 5]
      else if a = b \<and> b = c then [3, a, d, e]
      else if b = c \<and> c = d then [3, b, a, e]
      else if c = d \<and> d = e then [3, c, a, b]
      else if a = b \<and> c = d then [2, a, c, e]
      else if a = b \<and> d = e then [2, a, d, c]
      else if b = c \<and> d = e then [2, b, d, a]
      else if a = b then [1, a, c, d, e]
      else if b = c then [1, b, a, d, e]
      else if c = d then [1, c, a, b, e]
      else if d = e then [1, d, a, b, c]
      else [0, a, b, c, d, e])"
| "handValue rs fl = []"

text \<open>The length of a descriptor as a function of its category.\<close>

definition descriptorLength :: "int \<Rightarrow> nat" where
  "descriptorLength cat =
     (if cat = 8 \<or> cat = 4 then 2
      else if cat = 7 \<or> cat = 6 then 3
      else if cat = 3 \<or> cat = 2 then 4
      else if cat = 1 then 5
      else 6)"

text \<open>
  The values a descriptor holds: a category from 0 to 8, then rank values from 2 to 14
  (5 for the wheel). All of them lie between 0 and 14, as do the zeros that the
  comparator reads beyond the end of the shorter sequence. On such values the
  subtraction of \<open>compareRanks\<close> is exact in double arithmetic, so that the integer
  difference of the model is the number the code returns.
\<close>

definition descriptor :: "int list \<Rightarrow> bool" where
  "descriptor d = (\<forall>x \<in> set d. 0 \<le> x \<and> x \<le> 14)"

section \<open>The 5-card evaluator in the words of the specification\<close>

text \<open>
  The evaluator as the specification words it (section 4.2): the rank ordinals in
  descending order, the flush test, the straight-high (the highest rank \<open>r\<close> with
  \<open>r, r-1, r-2, r-3, r-4\<close> all present, scanning from the highest; else 5 for the wheel),
  the ranks that occur exactly \<open>n\<close> times (in descending order), the category by its
  precedence, and the tie-break values.
\<close>

definition spec_ranks :: "Card list \<Rightarrow> int list" where
  "spec_ranks cs = rev (sort (map (\<lambda>c. RANK_VALUE (rank c)) cs))"

definition spec_flush :: "Card list \<Rightarrow> bool" where
  "spec_flush cs = (\<forall>x \<in> set cs. \<forall>y \<in> set cs. suit x = suit y)"

definition spec_straightHigh :: "int list \<Rightarrow> int option" where
  "spec_straightHigh rs =
     (case filter (\<lambda>r. {r, r - 1, r - 2, r - 3, r - 4} \<subseteq> set rs) rs of
        r # _ \<Rightarrow> Some r
      | [] \<Rightarrow> if {14, 5, 4, 3, 2} \<subseteq> set rs then Some 5 else None)"

definition spec_groups :: "int list \<Rightarrow> nat \<Rightarrow> int list" where
  "spec_groups rs n = filter (\<lambda>r. count_list rs r = n) (remdups rs)"

definition spec_category :: "Card list \<Rightarrow> int" where
  "spec_category cs =
     (let rs = spec_ranks cs;
          straight = (spec_straightHigh rs \<noteq> None)
      in if spec_flush cs \<and> straight then 8
         else if spec_groups rs 4 \<noteq> [] then 7
         else if spec_groups rs 3 \<noteq> [] \<and> spec_groups rs 2 \<noteq> [] then 6
         else if spec_flush cs then 5
         else if straight then 4
         else if spec_groups rs 3 \<noteq> [] then 3
         else if length (spec_groups rs 2) = 2 then 2
         else if spec_groups rs 2 \<noteq> [] then 1
         else 0)"

definition spec_tiebreak :: "Card list \<Rightarrow> int list" where
  "spec_tiebreak cs =
     (let rs = spec_ranks cs; cat = spec_category cs
      in if cat = 8 \<or> cat = 4 then [the (spec_straightHigh rs)]
         else if cat = 5 \<or> cat = 0 then rs
         else spec_groups rs 4 @ spec_groups rs 3 @ spec_groups rs 2 @ spec_groups rs 1)"

section \<open>Greatest rank multiplicity\<close>

text \<open>The greatest number of cards of one rank among the cards; 0 when there are none.\<close>

definition maxMultiplicity :: "Card list \<Rightarrow> nat" where
  "maxMultiplicity cs = (let rs = map rank cs in fold max (map (count_list rs) rs) 0)"

section \<open>5-card subsets\<close>

text \<open>
  A 5-card subset of the cards, as a list in any order; and the 5-card subsets listed
  once each, in the order of the cards.
\<close>

definition fiveSubset :: "Card list \<Rightarrow> Card list \<Rightarrow> bool" where
  "fiveSubset h cs = (length h = 5 \<and> distinct h \<and> set h \<subseteq> set cs)"

definition sub5 :: "'a list \<Rightarrow> 'a list list" where
  "sub5 cs = filter (\<lambda>h. length h = 5) (subseqs cs)"

section \<open>The credit of a trial in the words of the specification\<close>

text \<open>
  The credit of one trial as the specification words it (section 4.5, step 5): the
  winner set holds the hands that achieve the maximum descriptor under the comparator;
  the hero is credited with \<open>1 / |winner set|\<close> when among them and with 0 otherwise.
\<close>

definition spec_credit :: "int list \<Rightarrow> int list list \<Rightarrow> real" where
  "spec_credit heroRank oppRanks =
     (let hands = heroRank # oppRanks;
          winners = filter (\<lambda>r. \<forall>r' \<in> set hands. compareRanks r' r \<le> 0) hands
      in if \<forall>r' \<in> set hands. compareRanks r' heroRank \<le> 0
         then 1 / real (length winners) else 0)"

text \<open>The \<open>forEach\<close> of \<open>tally\<close> on the opponents' descriptors, once they are known.\<close>

fun tallyRanks :: "int list list \<Rightarrow> int \<Rightarrow> int list \<times> int list \<Rightarrow> int list \<times> int list" where
  "tallyRanks [] index acc = acc"
| "tallyRanks (rnk # rest) index (bestRank, winners) =
     tallyRanks rest (index + 1)
       (if compareRanks rnk bestRank > 0 then (rnk, [index])
        else if compareRanks rnk bestRank = 0 then (bestRank, winners @ [index])
        else (bestRank, winners))"

section \<open>The credit of a trial\<close>

text \<open>
  The credit of the trial that starts after \<open>k\<close> random values: \<open>spec_credit\<close> of the
  hero's descriptor and the descriptors of all opponents, known and drawn, on the
  completed board.
\<close>

definition trialCredit ::
  "(nat \<Rightarrow> real) \<Rightarrow> Card list \<Rightarrow> Card list \<Rightarrow> Card list list \<Rightarrow> nat \<Rightarrow> nat \<Rightarrow> real" where
  "trialCredit rnd hero board knownOpponents u k =
     (case deal rnd hero board knownOpponents u k of
        (unknownOpponents, fullBoard, k') \<Rightarrow>
          spec_credit (the (evaluate7 (map Some hero @ fullBoard)))
            (map (\<lambda>hand. the (evaluate7 (hand @ fullBoard)))
               (map (map Some) knownOpponents @ unknownOpponents)))"

text \<open>
  The same in the arithmetic of doubles. The credit is the double \<open>fl (1 / |winner set|)\<close>
  when the hero is among the maximal hands; otherwise there is none (\<open>None\<close>: the credit
  0 of the specification, nothing is added). \<open>addCredit\<close> adds a credit to the running
  sum.
\<close>

definition spec_creditFl :: "(real \<Rightarrow> real) \<Rightarrow> int list \<Rightarrow> int list list \<Rightarrow> real option" where
  "spec_creditFl fl heroRank oppRanks =
     (let hands = heroRank # oppRanks;
          winners = filter (\<lambda>r. \<forall>r' \<in> set hands. compareRanks r' r \<le> 0) hands
      in if \<forall>r' \<in> set hands. compareRanks r' heroRank \<le> 0
         then Some (fl (1 / real (length winners))) else None)"

definition addCredit :: "(real \<Rightarrow> real) \<Rightarrow> real \<Rightarrow> real option \<Rightarrow> real" where
  "addCredit fl acc credit = (case credit of None \<Rightarrow> acc | Some c \<Rightarrow> fl (acc + c))"

definition trialCreditFl ::
  "(real \<Rightarrow> real) \<Rightarrow> (nat \<Rightarrow> real) \<Rightarrow> Card list \<Rightarrow> Card list \<Rightarrow> Card list list \<Rightarrow> nat \<Rightarrow> nat
     \<Rightarrow> real option" where
  "trialCreditFl fl rnd hero board knownOpponents u k =
     (case deal rnd hero board knownOpponents u k of
        (unknownOpponents, fullBoard, k') \<Rightarrow>
          spec_creditFl fl (the (evaluate7 (map Some hero @ fullBoard)))
            (map (\<lambda>hand. the (evaluate7 (hand @ fullBoard)))
               (map (map Some) knownOpponents @ unknownOpponents)))"

text \<open>Twenty-three known opponent hands: with the two cards \<open>2s 3s\<close> of a hero they
  take 48 cards of the deck and leave \<open>Jc Qc Kc Ac\<close>.\<close>

definition exhaustingOpponents :: "Card list list" where
  "exhaustingOpponents =
     [[\<lparr>rank = R4, suit = Su_s\<rparr>, \<lparr>rank = R5, suit = Su_s\<rparr>],
      [\<lparr>rank = R6, suit = Su_s\<rparr>, \<lparr>rank = R7, suit = Su_s\<rparr>],
      [\<lparr>rank = R8, suit = Su_s\<rparr>, \<lparr>rank = R9, suit = Su_s\<rparr>],
      [\<lparr>rank = RT, suit = Su_s\<rparr>, \<lparr>rank = RJ, suit = Su_s\<rparr>],
      [\<lparr>rank = RQ, suit = Su_s\<rparr>, \<lparr>rank = RK, suit = Su_s\<rparr>],
      [\<lparr>rank = RA, suit = Su_s\<rparr>, \<lparr>rank = R2, suit = Su_h\<rparr>],
      [\<lparr>rank = R3, suit = Su_h\<rparr>, \<lparr>rank = R4, suit = Su_h\<rparr>],
      [\<lparr>rank = R5, suit = Su_h\<rparr>, \<lparr>rank = R6, suit = Su_h\<rparr>],
      [\<lparr>rank = R7, suit = Su_h\<rparr>, \<lparr>rank = R8, suit = Su_h\<rparr>],
      [\<lparr>rank = R9, suit = Su_h\<rparr>, \<lparr>rank = RT, suit = Su_h\<rparr>],
      [\<lparr>rank = RJ, suit = Su_h\<rparr>, \<lparr>rank = RQ, suit = Su_h\<rparr>],
      [\<lparr>rank = RK, suit = Su_h\<rparr>, \<lparr>rank = RA, suit = Su_h\<rparr>],
      [\<lparr>rank = R2, suit = Su_d\<rparr>, \<lparr>rank = R3, suit = Su_d\<rparr>],
      [\<lparr>rank = R4, suit = Su_d\<rparr>, \<lparr>rank = R5, suit = Su_d\<rparr>],
      [\<lparr>rank = R6, suit = Su_d\<rparr>, \<lparr>rank = R7, suit = Su_d\<rparr>],
      [\<lparr>rank = R8, suit = Su_d\<rparr>, \<lparr>rank = R9, suit = Su_d\<rparr>],
      [\<lparr>rank = RT, suit = Su_d\<rparr>, \<lparr>rank = RJ, suit = Su_d\<rparr>],
      [\<lparr>rank = RQ, suit = Su_d\<rparr>, \<lparr>rank = RK, suit = Su_d\<rparr>],
      [\<lparr>rank = RA, suit = Su_d\<rparr>, \<lparr>rank = R2, suit = Su_c\<rparr>],
      [\<lparr>rank = R3, suit = Su_c\<rparr>, \<lparr>rank = R4, suit = Su_c\<rparr>],
      [\<lparr>rank = R5, suit = Su_c\<rparr>, \<lparr>rank = R6, suit = Su_c\<rparr>],
      [\<lparr>rank = R7, suit = Su_c\<rparr>, \<lparr>rank = R8, suit = Su_c\<rparr>],
      [\<lparr>rank = R9, suit = Su_c\<rparr>, \<lparr>rank = RT, suit = Su_c\<rparr>]]"

section \<open>The deterministic scenario\<close>

text \<open>The deterministic scenario of the specification (section 8): the hero holds
  two deuces and the board holds the other two.\<close>

definition fourDeucesHero :: "Card list" where
  "fourDeucesHero = [\<lparr>rank = R2, suit = Su_c\<rparr>, \<lparr>rank = R2, suit = Su_d\<rparr>]"

definition fourDeucesBoard :: "Card list" where
  "fourDeucesBoard = [\<lparr>rank = R2, suit = Su_h\<rparr>, \<lparr>rank = R2, suit = Su_s\<rparr>,
     \<lparr>rank = RK, suit = Su_s\<rparr>, \<lparr>rank = RQ, suit = Su_d\<rparr>, \<lparr>rank = RJ, suit = Su_d\<rparr>]"

section \<open>The caller (component App): card slots, duplicate check, the guard of the equity run\<close>

text \<open>
  The caller of the engine, the component \<open>App\<close>. A slot of a card grid is a card or
  \<open>null\<close>. Its React state is a record; the fields carry the prefix \<open>s_\<close>. The
  \<open>isCalculating\<close> flag, the active input and the 200 ms timer of the effect are left
  out: \<open>recompute\<close> is the effect once its timer has fired.
\<close>

definition compactCards :: "Card option list \<Rightarrow> Card list" where
  "compactCards cards = map the (filter (\<lambda>c. c \<noteq> None) cards)"

definition toKey :: "Card \<Rightarrow> string" where
  "toKey crd = [rankChar (rank crd), suitChar (suit crd)]"

fun hasDuplicateLoop :: "string set \<Rightarrow> Card list \<Rightarrow> bool" where
  "hasDuplicateLoop seen [] = False"
| "hasDuplicateLoop seen (crd # cards) =
     (if toKey crd \<in> seen then True else hasDuplicateLoop (insert (toKey crd) seen) cards)"

definition hasDuplicate :: "Card list \<Rightarrow> bool" where
  "hasDuplicate cards = hasDuplicateLoop {} cards"

record AppState =
  s_numPlayers :: int
  s_heroCards :: "Card option list"
  s_boardCards :: "Card option list"
  s_knownOpponents :: "Card option list list"
  s_error :: string
  s_equity :: "number option"
  s_iterations :: nat

definition canCalculate :: "Card option list \<Rightarrow> Card option list list \<Rightarrow> bool" where
  "canCalculate heroCards knownOpponents =
     (if length (compactCards heroCards) \<noteq> 2 then False
      else if list_ex (\<lambda>hand. length (compactCards hand) \<noteq> 2) knownOpponents then False
      else True)"

text \<open>The assignment \<open>xs[index] = v\<close>: beyond the end, the array grows and the slots in
  between are empty.\<close>

definition js_set :: "'a option list \<Rightarrow> nat \<Rightarrow> 'a \<Rightarrow> 'a option list" where
  "js_set xs index v =
     (if index < length xs then xs[index := Some v]
      else xs @ replicate (index - length xs) None @ [Some v])"

definition handleHeroSet :: "AppState \<Rightarrow> nat \<Rightarrow> Card \<Rightarrow> bool \<times> AppState" where
  "handleHeroSet st index crd =
     (let nextHero = js_set (s_heroCards st) index crd;
          nextAll = compactCards nextHero @ compactCards (s_boardCards st)
                    @ concat (map compactCards (s_knownOpponents st))
      in if hasDuplicate nextAll then (False, st\<lparr>s_error := ''Duplicate card detected.''\<rparr>)
         else (True, st\<lparr>s_error := '''', s_heroCards := nextHero\<rparr>))"

definition handleBoardSet :: "AppState \<Rightarrow> nat \<Rightarrow> Card \<Rightarrow> bool \<times> AppState" where
  "handleBoardSet st index crd =
     (let nextBoard = js_set (s_boardCards st) index crd;
          nextAll = compactCards (s_heroCards st) @ compactCards nextBoard
                    @ concat (map compactCards (s_knownOpponents st))
      in if hasDuplicate nextAll then (False, st\<lparr>s_error := ''Duplicate card detected.''\<rparr>)
         else (True, st\<lparr>s_error := '''', s_boardCards := nextBoard\<rparr>))"

text \<open>\<open>handleOpponentSet\<close>: writing into a hand that does not exist throws.\<close>

definition handleOpponentSet :: "AppState \<Rightarrow> nat \<Rightarrow> nat \<Rightarrow> Card \<Rightarrow> (bool \<times> AppState) option" where
  "handleOpponentSet st handIndex cardIndex crd = do {
     hand \<leftarrow> js_nth (s_knownOpponents st) handIndex;
     let nextOpponents = (s_knownOpponents st)[handIndex := js_set hand cardIndex crd];
     let nextAll = compactCards (s_heroCards st) @ compactCards (s_boardCards st)
                   @ concat (map compactCards nextOpponents);
     Some (if hasDuplicate nextAll then (False, st\<lparr>s_error := ''Duplicate card detected.''\<rparr>)
           else (True, st\<lparr>s_error := '''', s_knownOpponents := nextOpponents\<rparr>)) }"

definition recompute :: "(nat \<Rightarrow> real) \<Rightarrow> AppState \<Rightarrow> AppState option" where
  "recompute rnd st =
     (if \<not> canCalculate (s_heroCards st) (s_knownOpponents st) then Some (st\<lparr>s_equity := None\<rparr>)
      else do {
        result \<leftarrow> calculateWinRate rnd (compactCards (s_heroCards st))
                    (compactCards (s_boardCards st)) (s_numPlayers st)
                    (map compactCards (s_knownOpponents st)) (Some 5000);
        Some (st\<lparr>s_equity := Some (equity result), s_iterations := iterations result\<rparr>) })"

section \<open>Deck builder: properties\<close>

lemma rankChar_inj: "rankChar a = rankChar b \<Longrightarrow> a = b"
  by (cases a; cases b) simp_all

lemma suitChar_inj: "suitChar a = suitChar b \<Longrightarrow> a = b"
  by (cases a; cases b) simp_all

lemma cardToString_inj: "cardToString a = cardToString b \<longleftrightarrow> a = b"
  by (cases a; cases b) (auto simp: cardToString_def dest: rankChar_inj suitChar_inj)

lemma cardToString_mem: "cardToString c \<in> set (map cardToString ex) \<longleftrightarrow> c \<in> set ex"
  by (auto simp: cardToString_inj)

lemma createDeck_filter: "createDeck ex = filter (\<lambda>c. c \<notin> set ex) fullDeck"
proof -
  have inner: "concat (map (\<lambda>r. if \<lparr>rank = r, suit = s\<rparr> \<notin> set ex
                 then [\<lparr>rank = r, suit = s\<rparr>] else []) rs)
     = filter (\<lambda>c. c \<notin> set ex) (map (\<lambda>r. \<lparr>rank = r, suit = s\<rparr>) rs)" for s rs
    by (induction rs) simp_all
  have outer: "concat (map (\<lambda>s. filter P (f s)) ss) = filter P (concat (map f ss))"
    for P :: "Card \<Rightarrow> bool" and f :: "Suit \<Rightarrow> Card list" and ss
    by (induction ss) simp_all
  show ?thesis
    unfolding createDeck_def fullDeck_def Let_def cardToString_mem inner outer ..
qed

lemma all_ranks: "set RANKS = UNIV"
proof -
  have "r \<in> set RANKS" for r by (cases r) (simp_all add: RANKS_def)
  then show ?thesis by auto
qed

lemma all_suits: "set SUITS = UNIV"
proof -
  have "s \<in> set SUITS" for s by (cases s) (simp_all add: SUITS_def)
  then show ?thesis by auto
qed

lemma set_fullDeck: "set fullDeck = UNIV"
proof -
  have "c \<in> set fullDeck" for c
  proof (cases c)
    case (fields r s)
    have "r \<in> set RANKS" "s \<in> set SUITS" by (simp_all add: all_ranks all_suits)
    then show ?thesis unfolding fullDeck_def fields by auto
  qed
  then show ?thesis by auto
qed

lemma distinct_fullDeck: "distinct fullDeck"
  by (simp add: fullDeck_def RANKS_def SUITS_def)

lemma length_fullDeck: "length fullDeck = 52"
  by (simp add: fullDeck_def RANKS_def SUITS_def)

lemma card_Card_UNIV: "card (UNIV :: Card set) = 52"
  using distinct_card [OF distinct_fullDeck] by (simp add: set_fullDeck length_fullDeck)

lemma length_createDeck:
  assumes "distinct ex"
  shows "length (createDeck ex) = 52 - length ex"
proof -
  have fin: "finite (UNIV :: Card set)"
    using set_fullDeck by (metis List.finite_set)
  have "length (createDeck ex) = card (set (createDeck ex))"
    by (metis createDeck_filter distinct_card distinct_filter distinct_fullDeck)
  also have "set (createDeck ex) = UNIV - set ex"
    by (auto simp: createDeck_filter set_fullDeck)
  also have "card (UNIV - set ex) = card (UNIV :: Card set) - card (set ex)"
    by (rule card_Diff_subset) simp_all
  also have "\<dots> = 52 - length ex"
    using assms by (simp add: card_Card_UNIV distinct_card)
  finally show ?thesis .
qed

text \<open>
  C9. For every list \<open>excluded\<close> of distinct cards, \<open>createDeck\<close> returns exactly
  \<open>52 - |excluded|\<close> distinct cards, none of them excluded, namely the cards of the
  canonical suit-major rank-minor deck that are not excluded, in that order (the
  function is pure: its result is a function of \<open>excluded\<close> alone). With nothing
  excluded it returns all 52 cards, with all 52 excluded it returns the empty sequence.
\<close>

theorem createDeck_contract:
  assumes "distinct excluded"
  shows "length (createDeck excluded) = 52 - length excluded
       \<and> distinct (createDeck excluded)
       \<and> set (createDeck excluded) \<inter> set excluded = {}
       \<and> set (createDeck excluded) = UNIV - set excluded
       \<and> createDeck excluded = filter (\<lambda>c. c \<notin> set excluded) fullDeck
       \<and> createDeck [] = fullDeck \<and> length fullDeck = 52
       \<and> (length excluded = 52 \<longrightarrow> createDeck excluded = [])"
proof -
  have len: "length (createDeck excluded) = 52 - length excluded"
    by (rule length_createDeck [OF assms])
  have "length excluded = 52 \<Longrightarrow> createDeck excluded = []"
    using len by simp
  then show ?thesis
    using len by (auto simp: createDeck_filter distinct_fullDeck set_fullDeck length_fullDeck)
qed

theorem createDeck_contract_witness:
  "distinct [\<lparr>rank = RA, suit = Su_s\<rparr>, \<lparr>rank = R2, suit = Su_c\<rparr>]
   \<and> length (createDeck [\<lparr>rank = RA, suit = Su_s\<rparr>, \<lparr>rank = R2, suit = Su_c\<rparr>]) = 50
   \<and> \<lparr>rank = RA, suit = Su_s\<rparr> \<notin> set (createDeck [\<lparr>rank = RA, suit = Su_s\<rparr>, \<lparr>rank = R2, suit = Su_c\<rparr>])
   \<and> length fullDeck = 52 \<and> createDeck fullDeck = []"
proof -
  let ?ex = "[\<lparr>rank = RA, suit = Su_s\<rparr>, \<lparr>rank = R2, suit = Su_c\<rparr>]"
  have d: "distinct ?ex" by simp
  have "length (createDeck ?ex) = 52 - length ?ex"
    using createDeck_contract [OF d] by blast
  then have l: "length (createDeck ?ex) = 50" by simp
  have "set (createDeck ?ex) \<inter> set ?ex = {}"
    using createDeck_contract [OF d] by blast
  then have n: "\<lparr>rank = RA, suit = Su_s\<rparr> \<notin> set (createDeck ?ex)" by auto
  have e: "createDeck fullDeck = []"
    using createDeck_contract [OF distinct_fullDeck] length_fullDeck by blast
  show ?thesis using d l n e length_fullDeck by blast
qed

section \<open>Rank comparator: properties\<close>

lemma get0_simps [simp]: "get0 [] i = 0" "get0 (x # xs) 0 = x" "get0 (x # xs) (Suc i) = get0 xs i"
  by (simp_all add: get0_def js_nth_def)

lemma get0_beyond: "length a \<le> i \<Longrightarrow> get0 a i = 0"
  by (simp add: get0_def js_nth_def)

lemma compareLoop_neg: "compareLoop b a len i = - compareLoop a b len i"
proof (induction a b len i rule: compareLoop.induct)
  case (1 a b len i)
  show ?case
  proof (cases "i < len")
    case True
    then show ?thesis
      using 1 by (subst compareLoop.simps, subst (2) compareLoop.simps) (auto simp: Let_def)
  next
    case False
    then show ?thesis by simp
  qed
qed

lemma compareLoop_zero_iff:
  "compareLoop a b len i = 0 \<longleftrightarrow> (\<forall>j. i \<le> j \<and> j < len \<longrightarrow> get0 a j = get0 b j)"
proof (induction a b len i rule: compareLoop.induct)
  case (1 a b len i)
  show ?case
  proof (cases "i < len")
    case False
    then show ?thesis by simp
  next
    case True
    show ?thesis
    proof (cases "get0 a i = get0 b i")
      case False
      then show ?thesis using True by (subst compareLoop.simps) (auto simp: Let_def)
    next
      case eq: True
      have "compareLoop a b len i = compareLoop a b len (i + 1)"
        using True eq by (subst compareLoop.simps) (simp add: Let_def)
      also have "\<dots> = 0 \<longleftrightarrow> (\<forall>j. i + 1 \<le> j \<and> j < len \<longrightarrow> get0 a j = get0 b j)"
        using 1 [OF True refl] eq by simp
      also have "\<dots> \<longleftrightarrow> (\<forall>j. i \<le> j \<and> j < len \<longrightarrow> get0 a j = get0 b j)"
        using eq by (metis Suc_eq_plus1 Suc_leI le_neq_implies_less Suc_leD)
      finally show ?thesis .
    qed
  qed
qed

lemma compareLoop_pos_iff:
  "compareLoop a b len i > 0 \<longleftrightarrow>
     (\<exists>j. i \<le> j \<and> j < len \<and> get0 a j > get0 b j \<and> (\<forall>l. i \<le> l \<and> l < j \<longrightarrow> get0 a l = get0 b l))"
proof (induction a b len i rule: compareLoop.induct)
  case (1 a b len i)
  show ?case
  proof (cases "i < len")
    case False
    then show ?thesis by auto
  next
    case True
    show ?thesis
    proof (cases "get0 a i = get0 b i")
      case False
      have "compareLoop a b len i = get0 a i - get0 b i"
        using True False by (subst compareLoop.simps) (simp add: Let_def)
      moreover have "(\<exists>j. i \<le> j \<and> j < len \<and> get0 a j > get0 b j \<and> (\<forall>l. i \<le> l \<and> l < j \<longrightarrow> get0 a l = get0 b l))
         \<longleftrightarrow> get0 a i > get0 b i"
        using True False by (metis le_neq_implies_less order_refl not_less)
      ultimately show ?thesis by simp
    next
      case eq: True
      have "compareLoop a b len i = compareLoop a b len (i + 1)"
        using True eq by (subst compareLoop.simps) (simp add: Let_def)
      also have "\<dots> > 0 \<longleftrightarrow> (\<exists>j. i + 1 \<le> j \<and> j < len \<and> get0 a j > get0 b j \<and> (\<forall>l. i + 1 \<le> l \<and> l < j \<longrightarrow> get0 a l = get0 b l))"
        using 1 [OF True refl] eq by simp
      also have "\<dots> \<longleftrightarrow> (\<exists>j. i \<le> j \<and> j < len \<and> get0 a j > get0 b j \<and> (\<forall>l. i \<le> l \<and> l < j \<longrightarrow> get0 a l = get0 b l))"
        (is "?L \<longleftrightarrow> ?R")
      proof
        assume ?L
        then obtain j where j: "i + 1 \<le> j" "j < len" "get0 a j > get0 b j"
          "\<forall>l. i + 1 \<le> l \<and> l < j \<longrightarrow> get0 a l = get0 b l" by blast
        have "\<forall>l. i \<le> l \<and> l < j \<longrightarrow> get0 a l = get0 b l"
        proof (intro allI impI)
          fix l assume "i \<le> l \<and> l < j"
          then show "get0 a l = get0 b l" using j(4) eq by (cases "l = i") auto
        qed
        with j show ?R by (intro exI [of _ j]) auto
      next
        assume ?R
        then obtain j where j: "i \<le> j" "j < len" "get0 a j > get0 b j"
          "\<forall>l. i \<le> l \<and> l < j \<longrightarrow> get0 a l = get0 b l" by blast
        have "j \<noteq> i" using j(3) eq by auto
        with j show ?L by (intro exI [of _ j]) auto
      qed
      finally show ?thesis .
    qed
  qed
qed

lemma compareRanks_neg: "compareRanks b a = - compareRanks a b"
  unfolding compareRanks_def by (subst compareLoop_neg) (simp add: max.commute)

lemma compareRanks_zero_iff: "compareRanks a b = 0 \<longleftrightarrow> (\<forall>i. get0 a i = get0 b i)"
proof -
  have "get0 a j = get0 b j" if "\<not> j < max (length a) (length b)" for j
    using that by (simp add: get0_beyond)
  then show ?thesis
    unfolding compareRanks_def compareLoop_zero_iff by auto
qed

lemma compareRanks_pos_iff:
  "compareRanks a b > 0 \<longleftrightarrow> (\<exists>i. get0 a i > get0 b i \<and> (\<forall>j<i. get0 a j = get0 b j))"
proof -
  have "j < max (length a) (length b)" if "get0 a j > get0 b j" for j
    using that by (metis get0_beyond not_less max.bounded_iff order_less_irrefl)
  then show ?thesis
    unfolding compareRanks_def compareLoop_pos_iff by auto
qed

lemma compareRanks_trans_pos:
  assumes "compareRanks a b > 0" "compareRanks b c \<ge> 0"
  shows "compareRanks a c > 0"
proof -
  obtain i where i: "get0 a i > get0 b i" "\<forall>j<i. get0 a j = get0 b j"
    using assms(1) compareRanks_pos_iff by blast
  show ?thesis
  proof (cases "compareRanks b c = 0")
    case True
    then have "\<forall>i. get0 b i = get0 c i" by (simp add: compareRanks_zero_iff)
    with i show ?thesis unfolding compareRanks_pos_iff by auto
  next
    case False
    with assms(2) have "compareRanks b c > 0" by simp
    then obtain k where k: "get0 b k > get0 c k" "\<forall>j<k. get0 b j = get0 c j"
      using compareRanks_pos_iff by blast
    show ?thesis
      unfolding compareRanks_pos_iff
    proof (cases i k rule: linorder_cases)
      case less
      with i k show "\<exists>i. get0 c i < get0 a i \<and> (\<forall>j<i. get0 a j = get0 c j)"
        by (intro exI [of _ i]) auto
    next
      case equal
      with i k show "\<exists>i. get0 c i < get0 a i \<and> (\<forall>j<i. get0 a j = get0 c j)"
        by (intro exI [of _ i]) auto
    next
      case greater
      with i k show "\<exists>i. get0 c i < get0 a i \<and> (\<forall>j<i. get0 a j = get0 c j)"
        by (intro exI [of _ k]) auto
    qed
  qed
qed

lemma compareRanks_trans_zero_pos:
  assumes "compareRanks a b = 0" "compareRanks b c > 0"
  shows "compareRanks a c > 0"
proof -
  have "\<forall>i. get0 a i = get0 b i" using assms(1) by (simp add: compareRanks_zero_iff)
  moreover obtain k where "get0 b k > get0 c k" "\<forall>j<k. get0 b j = get0 c j"
    using assms(2) compareRanks_pos_iff by blast
  ultimately show ?thesis unfolding compareRanks_pos_iff by auto
qed

lemma compareRanks_trans_zero:
  assumes "compareRanks a b = 0" "compareRanks b c = 0"
  shows "compareRanks a c = 0"
  using assms by (simp add: compareRanks_zero_iff)

lemma compareRanks_trans_ge:
  assumes "compareRanks a b \<ge> 0" "compareRanks b c \<ge> 0"
  shows "compareRanks a c \<ge> 0"
proof (cases "compareRanks a b = 0")
  case True
  show ?thesis
  proof (cases "compareRanks b c = 0")
    case True
    with \<open>compareRanks a b = 0\<close> show ?thesis using compareRanks_trans_zero by simp
  next
    case False
    with assms(2) have "compareRanks b c > 0" by simp
    with True show ?thesis using compareRanks_trans_zero_pos by (simp add: less_imp_le)
  qed
next
  case False
  with assms(1) have "compareRanks a b > 0" by simp
  then have "compareRanks a c > 0" by (rule compareRanks_trans_pos [OF _ assms(2)])
  then show ?thesis by simp
qed

lemma compareRanks_category:
  assumes "get0 a 0 > get0 b 0"
  shows "compareRanks a b > 0"
  unfolding compareRanks_pos_iff using assms by (intro exI [of _ 0]) simp

lemma get0_eq_nth: "i < length a \<Longrightarrow> get0 a i = a ! i"
  by (simp add: get0_def js_nth_def)

lemma compareRanks_zero_same_length:
  assumes "length a = length b"
  shows "compareRanks a b = 0 \<longleftrightarrow> a = b"
proof
  assume "compareRanks a b = 0"
  then have "\<forall>i. get0 a i = get0 b i" by (simp add: compareRanks_zero_iff)
  then have "\<forall>i<length a. a ! i = b ! i" using assms by (metis get0_eq_nth)
  with assms show "a = b" by (simp add: list_eq_iff_nth_eq)
next
  assume "a = b"
  then show "compareRanks a b = 0" by (simp add: compareRanks_zero_iff)
qed

section \<open>5-card evaluator: closed form\<close>

lemma those_map_Some [simp]: "those (map Some xs) = Some xs"
  by (induction xs) simp_all

lemma straightScan_short: "length srt < 5 \<Longrightarrow> straightScan srt i = None"
  by (subst straightScan.simps) simp

lemma straightScan_five:
  "straightScan [a, b, c, d, e] 0 = (if a - e = 4 then Some a else None)"
  by (subst straightScan.simps, subst straightScan.simps) (simp add: Let_def)

lemma ev5_0000:
  assumes "js_sort desc (map (\<lambda>c. RANK_VALUE (rank c)) cs) = [a, b, c, d, e]"
    and "a > b" "b > c" "c > d" "d > e" "e \<ge> 2"
  shows "evaluate5 (map Some cs) = Some (handValue [a, b, c, d, e] (isFlush cs))"
  using assms
  by (simp add: evaluate5_def Let_def countRanks_def map_get0_def js_sort_def desc_def
      cmpGroup_def getStraightHigh_def uniq_def js_nth_def truthy_def straightScan_five straightScan_short) arith?

lemma ev5_0001:
  assumes "js_sort desc (map (\<lambda>c. RANK_VALUE (rank c)) cs) = [a, b, c, d, e]"
    and "a > b" "b > c" "c > d" "d = e" "e \<ge> 2"
  shows "evaluate5 (map Some cs) = Some (handValue [a, b, c, d, e] (isFlush cs))"
  using assms
  by (simp add: evaluate5_def Let_def countRanks_def map_get0_def js_sort_def desc_def
      cmpGroup_def getStraightHigh_def uniq_def js_nth_def truthy_def straightScan_five straightScan_short) arith?

lemma ev5_0010:
  assumes "js_sort desc (map (\<lambda>c. RANK_VALUE (rank c)) cs) = [a, b, c, d, e]"
    and "a > b" "b > c" "c = d" "d > e" "e \<ge> 2"
  shows "evaluate5 (map Some cs) = Some (handValue [a, b, c, d, e] (isFlush cs))"
  using assms
  by (simp add: evaluate5_def Let_def countRanks_def map_get0_def js_sort_def desc_def
      cmpGroup_def getStraightHigh_def uniq_def js_nth_def truthy_def straightScan_five straightScan_short) arith?

lemma ev5_0011:
  assumes "js_sort desc (map (\<lambda>c. RANK_VALUE (rank c)) cs) = [a, b, c, d, e]"
    and "a > b" "b > c" "c = d" "d = e" "e \<ge> 2"
  shows "evaluate5 (map Some cs) = Some (handValue [a, b, c, d, e] (isFlush cs))"
  using assms
  by (simp add: evaluate5_def Let_def countRanks_def map_get0_def js_sort_def desc_def
      cmpGroup_def getStraightHigh_def uniq_def js_nth_def truthy_def straightScan_five straightScan_short) arith?

lemma ev5_0100:
  assumes "js_sort desc (map (\<lambda>c. RANK_VALUE (rank c)) cs) = [a, b, c, d, e]"
    and "a > b" "b = c" "c > d" "d > e" "e \<ge> 2"
  shows "evaluate5 (map Some cs) = Some (handValue [a, b, c, d, e] (isFlush cs))"
  using assms
  by (simp add: evaluate5_def Let_def countRanks_def map_get0_def js_sort_def desc_def
      cmpGroup_def getStraightHigh_def uniq_def js_nth_def truthy_def straightScan_five straightScan_short) arith?

lemma ev5_0101:
  assumes "js_sort desc (map (\<lambda>c. RANK_VALUE (rank c)) cs) = [a, b, c, d, e]"
    and "a > b" "b = c" "c > d" "d = e" "e \<ge> 2"
  shows "evaluate5 (map Some cs) = Some (handValue [a, b, c, d, e] (isFlush cs))"
  using assms
  by (simp add: evaluate5_def Let_def countRanks_def map_get0_def js_sort_def desc_def
      cmpGroup_def getStraightHigh_def uniq_def js_nth_def truthy_def straightScan_five straightScan_short) arith?

lemma ev5_0110:
  assumes "js_sort desc (map (\<lambda>c. RANK_VALUE (rank c)) cs) = [a, b, c, d, e]"
    and "a > b" "b = c" "c = d" "d > e" "e \<ge> 2"
  shows "evaluate5 (map Some cs) = Some (handValue [a, b, c, d, e] (isFlush cs))"
  using assms
  by (simp add: evaluate5_def Let_def countRanks_def map_get0_def js_sort_def desc_def
      cmpGroup_def getStraightHigh_def uniq_def js_nth_def truthy_def straightScan_five straightScan_short) arith?

lemma ev5_0111:
  assumes "js_sort desc (map (\<lambda>c. RANK_VALUE (rank c)) cs) = [a, b, c, d, e]"
    and "a > b" "b = c" "c = d" "d = e" "e \<ge> 2"
  shows "evaluate5 (map Some cs) = Some (handValue [a, b, c, d, e] (isFlush cs))"
  using assms
  by (simp add: evaluate5_def Let_def countRanks_def map_get0_def js_sort_def desc_def
      cmpGroup_def getStraightHigh_def uniq_def js_nth_def truthy_def straightScan_five straightScan_short) arith?

lemma ev5_1000:
  assumes "js_sort desc (map (\<lambda>c. RANK_VALUE (rank c)) cs) = [a, b, c, d, e]"
    and "a = b" "b > c" "c > d" "d > e" "e \<ge> 2"
  shows "evaluate5 (map Some cs) = Some (handValue [a, b, c, d, e] (isFlush cs))"
  using assms
  by (simp add: evaluate5_def Let_def countRanks_def map_get0_def js_sort_def desc_def
      cmpGroup_def getStraightHigh_def uniq_def js_nth_def truthy_def straightScan_five straightScan_short) arith?

lemma ev5_1001:
  assumes "js_sort desc (map (\<lambda>c. RANK_VALUE (rank c)) cs) = [a, b, c, d, e]"
    and "a = b" "b > c" "c > d" "d = e" "e \<ge> 2"
  shows "evaluate5 (map Some cs) = Some (handValue [a, b, c, d, e] (isFlush cs))"
  using assms
  by (simp add: evaluate5_def Let_def countRanks_def map_get0_def js_sort_def desc_def
      cmpGroup_def getStraightHigh_def uniq_def js_nth_def truthy_def straightScan_five straightScan_short) arith?

lemma ev5_1010:
  assumes "js_sort desc (map (\<lambda>c. RANK_VALUE (rank c)) cs) = [a, b, c, d, e]"
    and "a = b" "b > c" "c = d" "d > e" "e \<ge> 2"
  shows "evaluate5 (map Some cs) = Some (handValue [a, b, c, d, e] (isFlush cs))"
  using assms
  by (simp add: evaluate5_def Let_def countRanks_def map_get0_def js_sort_def desc_def
      cmpGroup_def getStraightHigh_def uniq_def js_nth_def truthy_def straightScan_five straightScan_short) arith?

lemma ev5_1011:
  assumes "js_sort desc (map (\<lambda>c. RANK_VALUE (rank c)) cs) = [a, b, c, d, e]"
    and "a = b" "b > c" "c = d" "d = e" "e \<ge> 2"
  shows "evaluate5 (map Some cs) = Some (handValue [a, b, c, d, e] (isFlush cs))"
  using assms
  by (simp add: evaluate5_def Let_def countRanks_def map_get0_def js_sort_def desc_def
      cmpGroup_def getStraightHigh_def uniq_def js_nth_def truthy_def straightScan_five straightScan_short) arith?

lemma ev5_1100:
  assumes "js_sort desc (map (\<lambda>c. RANK_VALUE (rank c)) cs) = [a, b, c, d, e]"
    and "a = b" "b = c" "c > d" "d > e" "e \<ge> 2"
  shows "evaluate5 (map Some cs) = Some (handValue [a, b, c, d, e] (isFlush cs))"
  using assms
  by (simp add: evaluate5_def Let_def countRanks_def map_get0_def js_sort_def desc_def
      cmpGroup_def getStraightHigh_def uniq_def js_nth_def truthy_def straightScan_five straightScan_short) arith?

lemma ev5_1101:
  assumes "js_sort desc (map (\<lambda>c. RANK_VALUE (rank c)) cs) = [a, b, c, d, e]"
    and "a = b" "b = c" "c > d" "d = e" "e \<ge> 2"
  shows "evaluate5 (map Some cs) = Some (handValue [a, b, c, d, e] (isFlush cs))"
  using assms
  by (simp add: evaluate5_def Let_def countRanks_def map_get0_def js_sort_def desc_def
      cmpGroup_def getStraightHigh_def uniq_def js_nth_def truthy_def straightScan_five straightScan_short) arith?

lemma ev5_1110:
  assumes "js_sort desc (map (\<lambda>c. RANK_VALUE (rank c)) cs) = [a, b, c, d, e]"
    and "a = b" "b = c" "c = d" "d > e" "e \<ge> 2"
  shows "evaluate5 (map Some cs) = Some (handValue [a, b, c, d, e] (isFlush cs))"
  using assms
  by (simp add: evaluate5_def Let_def countRanks_def map_get0_def js_sort_def desc_def
      cmpGroup_def getStraightHigh_def uniq_def js_nth_def truthy_def straightScan_five straightScan_short) arith?

lemma ev5_1111:
  assumes "js_sort desc (map (\<lambda>c. RANK_VALUE (rank c)) cs) = [a, b, c, d, e]"
    and "a = b" "b = c" "c = d" "d = e" "e \<ge> 2"
  shows "evaluate5 (map Some cs) = Some (handValue [a, b, c, d, e] (isFlush cs))"
  using assms
  by (simp add: evaluate5_def Let_def countRanks_def map_get0_def js_sort_def desc_def
      cmpGroup_def getStraightHigh_def uniq_def js_nth_def truthy_def straightScan_five straightScan_short) arith?


lemma RANK_VALUE_range: "2 \<le> RANK_VALUE r \<and> RANK_VALUE r \<le> 14"
  by (cases r) simp_all

lemma mset_insert_by: "mset (insert_by cmp x xs) = add_mset x (mset xs)"
  by (induction xs) simp_all

lemma mset_js_sort: "mset (js_sort cmp xs) = mset xs"
  unfolding js_sort_def by (induction xs) (simp_all add: mset_insert_by)

lemma length_js_sort [simp]: "length (js_sort cmp xs) = length xs"
  by (metis mset_js_sort size_mset)

lemma set_js_sort [simp]: "set (js_sort cmp xs) = set xs"
  by (metis mset_js_sort set_mset_mset)

lemma set_insert_by: "set (insert_by cmp x xs) = insert x (set xs)"
  by (metis mset_insert_by set_mset_mset set_mset_add_mset_insert)

lemma sorted_insert_desc:
  "sorted_wrt (\<ge>) xs \<Longrightarrow> sorted_wrt (\<ge>) (insert_by desc x xs)"
  by (induction xs) (auto simp: desc_def set_insert_by)

lemma sorted_js_sort_desc: "sorted_wrt (\<ge>) (js_sort desc xs)"
  unfolding js_sort_def by (induction xs) (simp_all add: sorted_insert_desc)

lemma js_sort_desc_eq: "js_sort desc xs = rev (sort xs)"
proof -
  have "sorted (rev (js_sort desc xs))"
    using sorted_js_sort_desc [of xs] by (simp add: sorted_wrt_rev) 
  moreover have "mset (rev (js_sort desc xs)) = mset xs"
    by (simp add: mset_js_sort)
  ultimately have "sort xs = rev (js_sort desc xs)"
    by (rule properties_for_sort [rotated])
  then show ?thesis by simp
qed

lemma length5E:
  assumes "length ys = 5"
  obtains a b c d e where "ys = [a, b, c, d, e]"
  using assms by (auto simp: length_Suc_conv eval_nat_numeral)

lemma five_desc:
  assumes "length xs = 5"
  obtains a b c d e where "js_sort desc xs = [a, b, c, d, e]"
    "a \<ge> b" "b \<ge> c" "c \<ge> d" "d \<ge> e" "set xs = {a, b, c, d, e}"
proof -
  have "length (js_sort desc xs) = 5" using assms by simp
  then obtain a b c d e where eq: "js_sort desc xs = [a, b, c, d, e]"
    by (rule length5E)
  have "sorted_wrt (\<ge>) [a, b, c, d, e]"
    using sorted_js_sort_desc [of xs] eq by simp
  moreover have "set xs = {a, b, c, d, e}"
    using set_js_sort [of desc xs] eq by simp
  ultimately show ?thesis using eq that by auto
qed

lemma ev5_sorted:
  assumes "js_sort desc (map (\<lambda>c. RANK_VALUE (rank c)) cs) = [a, b, c, d, e]"
    and "a \<ge> b" "b \<ge> c" "c \<ge> d" "d \<ge> e" "e \<ge> 2"
  shows "evaluate5 (map Some cs) = Some (handValue [a, b, c, d, e] (isFlush cs))"
proof -
  have r: "a = b \<or> a > b" "b = c \<or> b > c" "c = d \<or> c > d" "d = e \<or> d > e"
    using assms by auto
  show ?thesis
    by (insert r assms(1) assms(6), elim disjE;
        (rule ev5_0000 ev5_0001 ev5_0010 ev5_0011 ev5_0100 ev5_0101 ev5_0110 ev5_0111
              ev5_1000 ev5_1001 ev5_1010 ev5_1011 ev5_1100 ev5_1101 ev5_1110 ev5_1111; assumption))
qed

lemma evaluate5_handValue:
  assumes "length cs = 5"
  shows "evaluate5 (map Some cs) =
           Some (handValue (js_sort desc (map (\<lambda>c. RANK_VALUE (rank c)) cs)) (isFlush cs))"
proof -
  let ?rs = "map (\<lambda>c. RANK_VALUE (rank c)) cs"
  have "length ?rs = 5" using assms by simp
  then obtain a b c d e where s: "js_sort desc ?rs = [a, b, c, d, e]"
    "a \<ge> b" "b \<ge> c" "c \<ge> d" "d \<ge> e" "set ?rs = {a, b, c, d, e}"
    by (rule five_desc)
  have "e \<in> set ?rs" using s(6) by simp
  then have "e \<ge> 2" using RANK_VALUE_range by auto
  with s show ?thesis by (simp add: ev5_sorted)
qed

section \<open>Descriptor length and the comparator\<close>

lemma handValue_length:
  "handValue [a, b, c, d, e] fl \<noteq> []
   \<and> length (handValue [a, b, c, d, e] fl) = descriptorLength (hd (handValue [a, b, c, d, e] fl))"
proof -
  have branch: "(if p then x else y) \<noteq> []
      \<and> length (if p then x else y) = descriptorLength (hd (if p then x else y))"
    if "x \<noteq> [] \<and> length x = descriptorLength (hd x)"
      and "y \<noteq> [] \<and> length y = descriptorLength (hd y)"
    for p and x y :: "int list"
    using that by (cases p) simp_all
  show ?thesis
    unfolding handValue.simps by (intro branch; simp add: descriptorLength_def)
qed

lemma evaluate5_length:
  assumes "length cs = 5"
  obtains d where "evaluate5 (map Some cs) = Some d" "d \<noteq> []"
    "length d = descriptorLength (hd d)"
proof -
  obtain a b c d e where "js_sort desc (map (\<lambda>c. RANK_VALUE (rank c)) cs) = [a, b, c, d, e]"
    using assms by (metis length5E length_js_sort length_map)
  then have "evaluate5 (map Some cs) = Some (handValue [a, b, c, d, e] (isFlush cs))"
    using evaluate5_handValue [OF assms] by simp
  then show ?thesis using handValue_length [of a b c d e "isFlush cs"] that by blast
qed

lemma compareRanks_head:
  assumes "get0 a 0 \<noteq> get0 b 0"
  shows "compareRanks a b = get0 a 0 - get0 b 0"
proof -
  have "0 < max (length a) (length b)"
    using assms by (metis get0_beyond max.bounded_iff not_less)
  then show ?thesis
    unfolding compareRanks_def using assms by (subst compareLoop.simps) (simp add: Let_def)
qed

lemma get0_hd: "d \<noteq> [] \<Longrightarrow> get0 d 0 = hd d"
  by (cases d) simp_all

lemma descriptor_equal_iff:
  assumes "d \<noteq> []" "d' \<noteq> []" "length d = descriptorLength (hd d)"
    "length d' = descriptorLength (hd d')"
  shows "compareRanks d d' = 0 \<longleftrightarrow> d = d'"
proof
  assume z: "compareRanks d d' = 0"
  then have "get0 d 0 = get0 d' 0" by (simp add: compareRanks_zero_iff)
  then have "hd d = hd d'" using assms by (simp add: get0_hd)
  then have "length d = length d'" using assms by simp
  then show "d = d'" using z by (simp add: compareRanks_zero_same_length)
next
  assume "d = d'"
  then show "compareRanks d d' = 0" by (simp add: compareRanks_zero_iff)
qed

text \<open>
  C8. For every two hands of 5 cards, \<open>evaluate5\<close> returns descriptors whose length is
  \<open>descriptorLength\<close> of their first element (the category): two descriptors with the
  same category have the same length, and when the lengths differ the categories differ
  and \<open>compareRanks\<close> is decided by the categories alone, so its zero-padding never
  decides a comparison within one category.
\<close>

theorem evaluate5_length_by_category:
  assumes "length cs = 5" and "length cs' = 5"
  shows "\<exists>d d'. evaluate5 (map Some cs) = Some d \<and> evaluate5 (map Some cs') = Some d'
           \<and> d \<noteq> [] \<and> d' \<noteq> []
           \<and> length d = descriptorLength (hd d) \<and> length d' = descriptorLength (hd d')
           \<and> (hd d = hd d' \<longrightarrow> length d = length d')
           \<and> (length d \<noteq> length d' \<longrightarrow> hd d \<noteq> hd d' \<and> compareRanks d d' = hd d - hd d')"
proof -
  obtain d where d: "evaluate5 (map Some cs) = Some d" "d \<noteq> []"
    "length d = descriptorLength (hd d)"
    using assms(1) by (rule evaluate5_length)
  obtain d' where d': "evaluate5 (map Some cs') = Some d'" "d' \<noteq> []"
    "length d' = descriptorLength (hd d')"
    using assms(2) by (rule evaluate5_length)
  have "hd d \<noteq> hd d' \<and> compareRanks d d' = hd d - hd d'" if "length d \<noteq> length d'"
  proof -
    have ne: "hd d \<noteq> hd d'" using that d(3) d'(3) by auto
    then have "get0 d 0 \<noteq> get0 d' 0" using d(2) d'(2) by (simp add: get0_hd)
    then have "compareRanks d d' = get0 d 0 - get0 d' 0" by (rule compareRanks_head)
    then show ?thesis using ne d(2) d'(2) by (simp add: get0_hd)
  qed
  then show ?thesis using d d' by auto
qed


theorem evaluate5_length_by_category_witness:
  "length [\<lparr>rank = RA, suit = Su_s\<rparr>, \<lparr>rank = RA, suit = Su_h\<rparr>, \<lparr>rank = RQ, suit = Su_h\<rparr>,
           \<lparr>rank = R3, suit = Su_s\<rparr>, \<lparr>rank = R2, suit = Su_s\<rparr>] = 5
   \<and> length [\<lparr>rank = RA, suit = Su_s\<rparr>, \<lparr>rank = R2, suit = Su_h\<rparr>, \<lparr>rank = R3, suit = Su_s\<rparr>,
           \<lparr>rank = R4, suit = Su_s\<rparr>, \<lparr>rank = R5, suit = Su_s\<rparr>] = 5
   \<and> evaluate5 (map Some [\<lparr>rank = RA, suit = Su_s\<rparr>, \<lparr>rank = RA, suit = Su_h\<rparr>,
           \<lparr>rank = RQ, suit = Su_h\<rparr>, \<lparr>rank = R3, suit = Su_s\<rparr>, \<lparr>rank = R2, suit = Su_s\<rparr>])
       = Some [1, 14, 12, 3, 2]
   \<and> evaluate5 (map Some [\<lparr>rank = RA, suit = Su_s\<rparr>, \<lparr>rank = R2, suit = Su_h\<rparr>,
           \<lparr>rank = R3, suit = Su_s\<rparr>, \<lparr>rank = R4, suit = Su_s\<rparr>, \<lparr>rank = R5, suit = Su_s\<rparr>])
       = Some [4, 5]
   \<and> length [1, 14, 12, 3, 2 :: int] = descriptorLength 1
   \<and> length [4, 5 :: int] = descriptorLength 4
   \<and> compareRanks [1, 14, 12, 3, 2] [4, 5] = 1 - 4"
proof -
  let ?cs = "[\<lparr>rank = RA, suit = Su_s\<rparr>, \<lparr>rank = RA, suit = Su_h\<rparr>, \<lparr>rank = RQ, suit = Su_h\<rparr>,
           \<lparr>rank = R3, suit = Su_s\<rparr>, \<lparr>rank = R2, suit = Su_s\<rparr>]"
  let ?cs' = "[\<lparr>rank = RA, suit = Su_s\<rparr>, \<lparr>rank = R2, suit = Su_h\<rparr>, \<lparr>rank = R3, suit = Su_s\<rparr>,
           \<lparr>rank = R4, suit = Su_s\<rparr>, \<lparr>rank = R5, suit = Su_s\<rparr>]"
  have l: "length ?cs = 5" "length ?cs' = 5" by simp_all
  have e1: "evaluate5 (map Some ?cs) = Some [1, 14, 12, 3, 2]" by code_simp
  have e2: "evaluate5 (map Some ?cs') = Some [4, 5]" by code_simp
  from evaluate5_length_by_category [OF l] obtain d d' where
    "evaluate5 (map Some ?cs) = Some d" "evaluate5 (map Some ?cs') = Some d'"
    "length d = descriptorLength (hd d)" "length d' = descriptorLength (hd d')"
    "length d \<noteq> length d' \<longrightarrow> hd d \<noteq> hd d' \<and> compareRanks d d' = hd d - hd d'"
    by blast
  with e1 e2 have "length [1, 14, 12, 3, 2 :: int] = descriptorLength 1"
    "length [4, 5 :: int] = descriptorLength 4"
    "compareRanks [1, 14, 12, 3, 2] [4, 5] = 1 - 4"
    by auto
  with l e1 e2 show ?thesis by blast
qed

lemma handValue_descriptor:
  assumes "2 \<le> a \<and> a \<le> 14" "2 \<le> b \<and> b \<le> 14" "2 \<le> c \<and> c \<le> 14"
    "2 \<le> d \<and> d \<le> 14" "2 \<le> e \<and> e \<le> 14"
  shows "descriptor (handValue [a, b, c, d, e] fl)"
proof -
  have branch: "descriptor (if p then x else y)" if "descriptor x" and "descriptor y"
    for p and x y :: "int list"
    using that by (cases p) simp_all
  have nn: "0 \<le> a" "0 \<le> b" "0 \<le> c" "0 \<le> d" "0 \<le> e" using assms by simp_all
  show ?thesis
    unfolding handValue.simps by (intro branch; simp add: descriptor_def assms nn)
qed

lemma evaluate5_descriptor:
  assumes "length cs = 5" and "evaluate5 (map Some cs) = Some d"
  shows "descriptor d"
proof -
  let ?rs = "map (\<lambda>c. RANK_VALUE (rank c)) cs"
  have "length ?rs = 5" using assms(1) by simp
  then obtain a b c d' e where s: "js_sort desc ?rs = [a, b, c, d', e]"
    "{a, b, c, d', e} = set ?rs"
    by (rule five_desc) simp
  have r: "2 \<le> x \<and> x \<le> 14" if "x \<in> set ?rs" for x
    using that RANK_VALUE_range by auto
  have "descriptor (handValue [a, b, c, d', e] (isFlush cs))"
    by (intro handValue_descriptor r) (simp_all only: s(2) [symmetric] insert_iff simp_thms)
  then show ?thesis using evaluate5_handValue [OF assms(1)] assms(2) s(1) by simp
qed

text \<open>
  C4. On descriptors (sequences of values from 0 to 14) \<open>compareRanks\<close> compares
  lexicographically, element by element, with every position beyond the end of a
  sequence read as 0. It is antisymmetric (the result for \<open>(b, a)\<close> is the negation of
  the result for \<open>(a, b)\<close>), equal descriptors are exactly those that compare 0 (for
  sequences of one length, and so for any two descriptors that \<open>evaluate5\<close> returns for
  5-card hands, which are descriptors in this sense), it is transitive, and the category
  dominates: a greater first element compares greater whatever follows.
\<close>

theorem compareRanks_total_order:
  assumes "descriptor a" and "descriptor b" and "descriptor c"
    and "descriptor (ca # ta)" and "descriptor (cb # tb)"
  shows "compareRanks b a = - compareRanks a b
   \<and> ((compareRanks a b > 0) = (\<exists>i. get0 a i > get0 b i \<and> (\<forall>j<i. get0 a j = get0 b j)))
   \<and> ((compareRanks a b = 0) = (\<forall>i. get0 a i = get0 b i))
   \<and> (length a = length b \<longrightarrow> (compareRanks a b = 0) = (a = b))
   \<and> (length h = 5 \<and> length h' = 5 \<longrightarrow>
        (\<exists>d d'. evaluate5 (map Some h) = Some d \<and> evaluate5 (map Some h') = Some d'
           \<and> descriptor d \<and> descriptor d' \<and> (compareRanks d d' = 0) = (d = d')))
   \<and> (compareRanks a b > 0 \<and> compareRanks b c > 0 \<longrightarrow> compareRanks a c > 0)
   \<and> (compareRanks a b \<ge> 0 \<and> compareRanks b c \<ge> 0 \<longrightarrow> compareRanks a c \<ge> 0)
   \<and> (compareRanks a b = 0 \<and> compareRanks b c = 0 \<longrightarrow> compareRanks a c = 0)
   \<and> (ca > cb \<longrightarrow> compareRanks (ca # ta) (cb # tb) > 0)"
proof -
  have hands: "\<exists>d d'. evaluate5 (map Some h) = Some d \<and> evaluate5 (map Some h') = Some d'
           \<and> descriptor d \<and> descriptor d' \<and> (compareRanks d d' = 0) = (d = d')"
    if h5: "length h = 5" "length h' = 5"
  proof -
    obtain d where d: "evaluate5 (map Some h) = Some d" "d \<noteq> []"
      "length d = descriptorLength (hd d)"
      using h5(1) by (rule evaluate5_length)
    obtain d' where d': "evaluate5 (map Some h') = Some d'" "d' \<noteq> []"
      "length d' = descriptorLength (hd d')"
      using h5(2) by (rule evaluate5_length)
    have "descriptor d" "descriptor d'"
      using evaluate5_descriptor h5 d(1) d'(1) by blast+
    then show ?thesis using d d' descriptor_equal_iff by blast
  qed
  have tr: "compareRanks a c > 0" if "compareRanks a b > 0" "compareRanks b c > 0"
    using that compareRanks_trans_pos [of a b c] by simp
  have cat: "compareRanks (ca # ta) (cb # tb) > 0" if "ca > cb"
    using that by (intro compareRanks_category) simp
  show ?thesis
    using hands tr cat compareRanks_neg [of b a] compareRanks_pos_iff [of a b]
      compareRanks_zero_iff [of a b] compareRanks_zero_same_length [of a b]
      compareRanks_trans_ge [of a b c] compareRanks_trans_zero [of a b c]
    by blast
qed

theorem compareRanks_total_order_witness:
  "descriptor [7, 2, 13] \<and> descriptor [6, 13, 2] \<and> descriptor [6, 12, 3]
   \<and> compareRanks [6, 13, 2] [7, 2, 13] = - compareRanks [7, 2, 13] [6, 13, 2]
   \<and> compareRanks [7, 2, 13] [6, 13, 2] > 0
   \<and> compareRanks [6, 13, 2] [6, 12, 3] > 0
   \<and> compareRanks [7, 2, 13] [6, 12, 3] > 0
   \<and> compareRanks [4, 5] [4, 5, 0] = 0"
proof -
  have d: "descriptor [7, 2, 13]" "descriptor [6, 13, 2]" "descriptor [6, 12, 3]"
    by (simp_all add: descriptor_def)
  note t = compareRanks_total_order [OF d d(1,2), where h = "[]" and h' = "[]"]
  have 1: "compareRanks [6, 13, 2] [7, 2, 13] = - compareRanks [7, 2, 13] [6, 13, 2]"
    using t by blast
  have "(7::int) > 6" by simp
  with t have 2: "compareRanks [7, 2, 13] [6, 13, 2] > 0" by blast
  have 3: "compareRanks [6, 13, 2] [6, 12, 3] > 0" by code_simp
  have 4: "compareRanks [7, 2, 13] [6, 12, 3] > 0"
    using t 2 3 by blast
  have 5: "compareRanks [4, 5] [4, 5, 0] = 0" by code_simp
  show ?thesis using d 1 2 3 4 5 by blast
qed

section \<open>5-card evaluator: the specification's category and tie-break\<close>

lemma spec_ranks_eq: "spec_ranks cs = js_sort desc (map (\<lambda>c. RANK_VALUE (rank c)) cs)"
  by (simp add: spec_ranks_def js_sort_desc_eq)

lemma spec_flush_eq: "spec_flush cs = isFlush cs"
  by (cases cs) (auto simp: spec_flush_def isFlush_def list_all_iff)

lemma card_run: "card {r, r - 1, r - 2, r - 3, r - (4::int)} = 5"
  by simp

lemma card_wheel: "card {14, 5, 4, 3, 2 :: int} = 5"
  by simp

lemma run_card:
  assumes "{r, r - 1, r - 2, r - 3, r - (4::int)} \<subseteq> set rs"
  shows "5 \<le> card (set rs)"
  using card_mono [OF _ assms] card_run [of r] by simp

lemma wheel_card:
  assumes "{14, 5, 4, 3, 2 :: int} \<subseteq> set rs"
  shows "5 \<le> card (set rs)"
  using card_mono [OF _ assms] card_wheel by simp

lemma spec_straightHigh_few:
  assumes "card (set rs) < 5"
  shows "spec_straightHigh rs = None"
proof -
  have "\<not> {r, r - 1, r - 2, r - 3, r - 4} \<subseteq> set rs" for r
    using assms run_card [of r rs] by linarith
  then have "filter (\<lambda>r. {r, r - 1, r - 2, r - 3, r - 4} \<subseteq> set rs) rs = []"
    unfolding filter_empty_conv by blast
  moreover have "\<not> {14, 5, 4, 3, 2} \<subseteq> set rs"
    using assms wheel_card [of rs] by linarith
  ultimately show ?thesis unfolding spec_straightHigh_def by (simp only: list.case if_False)
qed

lemma five_sets_eq:
  assumes "a > b" "b > c" "c > d" "d > (e::int)"
    and "a' > b'" "b' > c'" "c' > d'" "d' > e'"
    and "{a', b', c', d', e'} \<subseteq> {a, b, c, d, e}"
  shows "[a, b, c, d, e] = [a', b', c', d', e']"
proof -
  have "card {a', b', c', d', e'} = 5" using assms(5-8) by simp
  moreover have "card {a, b, c, d, e} = 5" using assms(1-4) by simp
  ultimately have "{a', b', c', d', e'} = {a, b, c, d, e}"
    using assms(9) by (intro card_subset_eq) simp_all
  then have "set [e, d, c, b, a] = set [e', d', c', b', a']" by auto
  moreover have "sorted [e, d, c, b, a]" "distinct [e, d, c, b, a]" using assms(1-4) by auto
  moreover have "sorted [e', d', c', b', a']" "distinct [e', d', c', b', a']"
    using assms(5-8) by auto
  ultimately have "[e, d, c, b, a] = [e', d', c', b', a']"
    by (intro sorted_distinct_set_unique)
  then show ?thesis by simp
qed

lemma run_five:
  assumes "a > b" "b > c" "c > d" "d > (e::int)"
  shows "{r, r - 1, r - 2, r - 3, r - 4} \<subseteq> {a, b, c, d, e} \<longleftrightarrow> r = a \<and> a - e = 4"
proof
  assume "{r, r - 1, r - 2, r - 3, r - 4} \<subseteq> {a, b, c, d, e}"
  then have "[a, b, c, d, e] = [r, r - 1, r - 2, r - 3, r - 4]"
    using assms by (intro five_sets_eq) simp_all
  then show "r = a \<and> a - e = 4" by simp
next
  assume "r = a \<and> a - e = 4"
  with assms have "r = a" "b = a - 1" "c = a - 2" "d = a - 3" "e = a - 4" by auto
  then show "{r, r - 1, r - 2, r - 3, r - 4} \<subseteq> {a, b, c, d, e}" by simp
qed

lemma wheel_five:
  assumes "a > b" "b > c" "c > d" "d > (e::int)"
  shows "{14, 5, 4, 3, 2} \<subseteq> {a, b, c, d, e} \<longleftrightarrow> [a, b, c, d, e] = [14, 5, 4, 3, 2]"
proof
  assume "{14, 5, 4, 3, 2} \<subseteq> {a, b, c, d, e}"
  then show "[a, b, c, d, e] = [14, 5, 4, 3, 2]"
    using assms by (intro five_sets_eq) simp_all
next
  assume "[a, b, c, d, e] = [14, 5, 4, 3, 2]"
  then show "{14, 5, 4, 3, 2} \<subseteq> {a, b, c, d, e}" by simp
qed

lemma spec_straightHigh_five:
  assumes "a > b" "b > c" "c > d" "d > (e::int)"
  shows "spec_straightHigh [a, b, c, d, e] =
           (if a - e = 4 then Some a
            else if [a, b, c, d, e] = [14, 5, 4, 3, 2] then Some 5 else None)"
proof -
  have s: "set [a, b, c, d, e] = {a, b, c, d, e}" by simp
  have r: "({r, r - 1, r - 2, r - 3, r - 4} \<subseteq> {a, b, c, d, e}) = (r = a \<and> a - e = 4)" for r
    by (rule run_five [OF assms])
  have f: "filter (\<lambda>r. r = a \<and> a - e = 4) [a, b, c, d, e] = (if a - e = 4 then [a] else [])"
    using assms by simp
  show ?thesis
    unfolding spec_straightHigh_def s r wheel_five [OF assms] f
    by (cases "a - e = 4") simp_all
qed

lemma spec_straightHigh_wheel: "spec_straightHigh [14, 5, 4, 3, 2] = Some 5"
  by (subst spec_straightHigh_five) simp_all

lemma spec_0000:
  assumes "spec_ranks cs = [a, b, c, d, e]"
    and "a > b" "b > c" "c > d" "d > e"
  shows "spec_category cs # spec_tiebreak cs = handValue [a, b, c, d, e] (spec_flush cs)"
proof -
  have sh: "spec_straightHigh [a, b, c, d, e] =
      (if a - e = 4 then Some a else if [a, b, c, d, e] = [14, 5, 4, 3, 2] then Some 5 else None)"
    using assms by (intro spec_straightHigh_five)
  show ?thesis
    using assms sh
    by (auto simp add: spec_category_def spec_tiebreak_def Let_def spec_groups_def
        spec_straightHigh_wheel)
qed

lemma spec_0001:
  assumes "spec_ranks cs = [a, b, c, d, e]"
    and "a > b" "b > c" "c > d" "d = e"
  shows "spec_category cs # spec_tiebreak cs = handValue [a, b, c, d, e] (spec_flush cs)"
proof -
  have "card (set [a, b, c, d, e]) < 5" using assms by simp
  then have sh: "spec_straightHigh [a, b, c, d, e] = None" by (rule spec_straightHigh_few)
  show ?thesis
    using assms sh
    by (auto simp add: spec_category_def spec_tiebreak_def Let_def spec_groups_def
        spec_straightHigh_wheel)
qed

lemma spec_0010:
  assumes "spec_ranks cs = [a, b, c, d, e]"
    and "a > b" "b > c" "c = d" "d > e"
  shows "spec_category cs # spec_tiebreak cs = handValue [a, b, c, d, e] (spec_flush cs)"
proof -
  have "card (set [a, b, c, d, e]) < 5" using assms by simp
  then have sh: "spec_straightHigh [a, b, c, d, e] = None" by (rule spec_straightHigh_few)
  show ?thesis
    using assms sh
    by (auto simp add: spec_category_def spec_tiebreak_def Let_def spec_groups_def
        spec_straightHigh_wheel)
qed

lemma spec_0011:
  assumes "spec_ranks cs = [a, b, c, d, e]"
    and "a > b" "b > c" "c = d" "d = e"
  shows "spec_category cs # spec_tiebreak cs = handValue [a, b, c, d, e] (spec_flush cs)"
proof -
  have "card (set [a, b, c, d, e]) < 5" using assms by simp
  then have sh: "spec_straightHigh [a, b, c, d, e] = None" by (rule spec_straightHigh_few)
  show ?thesis
    using assms sh
    by (auto simp add: spec_category_def spec_tiebreak_def Let_def spec_groups_def
        spec_straightHigh_wheel)
qed

lemma spec_0100:
  assumes "spec_ranks cs = [a, b, c, d, e]"
    and "a > b" "b = c" "c > d" "d > e"
  shows "spec_category cs # spec_tiebreak cs = handValue [a, b, c, d, e] (spec_flush cs)"
proof -
  have "card (set [a, b, c, d, e]) < 5" using assms by simp
  then have sh: "spec_straightHigh [a, b, c, d, e] = None" by (rule spec_straightHigh_few)
  show ?thesis
    using assms sh
    by (auto simp add: spec_category_def spec_tiebreak_def Let_def spec_groups_def
        spec_straightHigh_wheel)
qed

lemma spec_0101:
  assumes "spec_ranks cs = [a, b, c, d, e]"
    and "a > b" "b = c" "c > d" "d = e"
  shows "spec_category cs # spec_tiebreak cs = handValue [a, b, c, d, e] (spec_flush cs)"
proof -
  have "card (set [a, b, c, d, e]) < 5" using assms by simp
  then have sh: "spec_straightHigh [a, b, c, d, e] = None" by (rule spec_straightHigh_few)
  show ?thesis
    using assms sh
    by (auto simp add: spec_category_def spec_tiebreak_def Let_def spec_groups_def
        spec_straightHigh_wheel)
qed

lemma spec_0110:
  assumes "spec_ranks cs = [a, b, c, d, e]"
    and "a > b" "b = c" "c = d" "d > e"
  shows "spec_category cs # spec_tiebreak cs = handValue [a, b, c, d, e] (spec_flush cs)"
proof -
  have "card (set [a, b, c, d, e]) < 5" using assms by simp
  then have sh: "spec_straightHigh [a, b, c, d, e] = None" by (rule spec_straightHigh_few)
  show ?thesis
    using assms sh
    by (auto simp add: spec_category_def spec_tiebreak_def Let_def spec_groups_def
        spec_straightHigh_wheel)
qed

lemma spec_0111:
  assumes "spec_ranks cs = [a, b, c, d, e]"
    and "a > b" "b = c" "c = d" "d = e"
  shows "spec_category cs # spec_tiebreak cs = handValue [a, b, c, d, e] (spec_flush cs)"
proof -
  have "card (set [a, b, c, d, e]) < 5" using assms by simp
  then have sh: "spec_straightHigh [a, b, c, d, e] = None" by (rule spec_straightHigh_few)
  show ?thesis
    using assms sh
    by (auto simp add: spec_category_def spec_tiebreak_def Let_def spec_groups_def
        spec_straightHigh_wheel)
qed

lemma spec_1000:
  assumes "spec_ranks cs = [a, b, c, d, e]"
    and "a = b" "b > c" "c > d" "d > e"
  shows "spec_category cs # spec_tiebreak cs = handValue [a, b, c, d, e] (spec_flush cs)"
proof -
  have "card (set [a, b, c, d, e]) < 5" using assms by simp
  then have sh: "spec_straightHigh [a, b, c, d, e] = None" by (rule spec_straightHigh_few)
  show ?thesis
    using assms sh
    by (auto simp add: spec_category_def spec_tiebreak_def Let_def spec_groups_def
        spec_straightHigh_wheel)
qed

lemma spec_1001:
  assumes "spec_ranks cs = [a, b, c, d, e]"
    and "a = b" "b > c" "c > d" "d = e"
  shows "spec_category cs # spec_tiebreak cs = handValue [a, b, c, d, e] (spec_flush cs)"
proof -
  have "card (set [a, b, c, d, e]) < 5" using assms by simp
  then have sh: "spec_straightHigh [a, b, c, d, e] = None" by (rule spec_straightHigh_few)
  show ?thesis
    using assms sh
    by (auto simp add: spec_category_def spec_tiebreak_def Let_def spec_groups_def
        spec_straightHigh_wheel)
qed

lemma spec_1010:
  assumes "spec_ranks cs = [a, b, c, d, e]"
    and "a = b" "b > c" "c = d" "d > e"
  shows "spec_category cs # spec_tiebreak cs = handValue [a, b, c, d, e] (spec_flush cs)"
proof -
  have "card (set [a, b, c, d, e]) < 5" using assms by simp
  then have sh: "spec_straightHigh [a, b, c, d, e] = None" by (rule spec_straightHigh_few)
  show ?thesis
    using assms sh
    by (auto simp add: spec_category_def spec_tiebreak_def Let_def spec_groups_def
        spec_straightHigh_wheel)
qed

lemma spec_1011:
  assumes "spec_ranks cs = [a, b, c, d, e]"
    and "a = b" "b > c" "c = d" "d = e"
  shows "spec_category cs # spec_tiebreak cs = handValue [a, b, c, d, e] (spec_flush cs)"
proof -
  have "card (set [a, b, c, d, e]) < 5" using assms by simp
  then have sh: "spec_straightHigh [a, b, c, d, e] = None" by (rule spec_straightHigh_few)
  show ?thesis
    using assms sh
    by (auto simp add: spec_category_def spec_tiebreak_def Let_def spec_groups_def
        spec_straightHigh_wheel)
qed

lemma spec_1100:
  assumes "spec_ranks cs = [a, b, c, d, e]"
    and "a = b" "b = c" "c > d" "d > e"
  shows "spec_category cs # spec_tiebreak cs = handValue [a, b, c, d, e] (spec_flush cs)"
proof -
  have "card (set [a, b, c, d, e]) < 5" using assms by simp
  then have sh: "spec_straightHigh [a, b, c, d, e] = None" by (rule spec_straightHigh_few)
  show ?thesis
    using assms sh
    by (auto simp add: spec_category_def spec_tiebreak_def Let_def spec_groups_def
        spec_straightHigh_wheel)
qed

lemma spec_1101:
  assumes "spec_ranks cs = [a, b, c, d, e]"
    and "a = b" "b = c" "c > d" "d = e"
  shows "spec_category cs # spec_tiebreak cs = handValue [a, b, c, d, e] (spec_flush cs)"
proof -
  have "card (set [a, b, c, d, e]) < 5" using assms by simp
  then have sh: "spec_straightHigh [a, b, c, d, e] = None" by (rule spec_straightHigh_few)
  show ?thesis
    using assms sh
    by (auto simp add: spec_category_def spec_tiebreak_def Let_def spec_groups_def
        spec_straightHigh_wheel)
qed

lemma spec_1110:
  assumes "spec_ranks cs = [a, b, c, d, e]"
    and "a = b" "b = c" "c = d" "d > e"
  shows "spec_category cs # spec_tiebreak cs = handValue [a, b, c, d, e] (spec_flush cs)"
proof -
  have "card (set [a, b, c, d, e]) < 5" using assms by simp
  then have sh: "spec_straightHigh [a, b, c, d, e] = None" by (rule spec_straightHigh_few)
  show ?thesis
    using assms sh
    by (auto simp add: spec_category_def spec_tiebreak_def Let_def spec_groups_def
        spec_straightHigh_wheel)
qed

lemma spec_1111:
  assumes "spec_ranks cs = [a, b, c, d, e]"
    and "a = b" "b = c" "c = d" "d = e"
  shows "spec_category cs # spec_tiebreak cs = handValue [a, b, c, d, e] (spec_flush cs)"
proof -
  have "card (set [a, b, c, d, e]) < 5" using assms by simp
  then have sh: "spec_straightHigh [a, b, c, d, e] = None" by (rule spec_straightHigh_few)
  show ?thesis
    using assms sh
    by (auto simp add: spec_category_def spec_tiebreak_def Let_def spec_groups_def
        spec_straightHigh_wheel)
qed

lemma spec_sorted:
  assumes "spec_ranks cs = [a, b, c, d, e]"
    and "a \<ge> b" "b \<ge> c" "c \<ge> d" "d \<ge> e"
  shows "spec_category cs # spec_tiebreak cs = handValue [a, b, c, d, e] (spec_flush cs)"
proof -
  have r: "a = b \<or> a > b" "b = c \<or> b > c" "c = d \<or> c > d" "d = e \<or> d > e"
    using assms by auto
  show ?thesis
    by (insert r assms(1), elim disjE;
        (rule spec_0000 spec_0001 spec_0010 spec_0011 spec_0100 spec_0101 spec_0110 spec_0111
              spec_1000 spec_1001 spec_1010 spec_1011 spec_1100 spec_1101 spec_1110 spec_1111;
         assumption))
qed

lemma evaluate5_spec:
  assumes "length cs = 5"
  shows "evaluate5 (map Some cs) = Some (spec_category cs # spec_tiebreak cs)"
proof -
  let ?rs = "map (\<lambda>c. RANK_VALUE (rank c)) cs"
  have "length ?rs = 5" using assms by simp
  then obtain a b c d e where s: "js_sort desc ?rs = [a, b, c, d, e]"
    "a \<ge> b" "b \<ge> c" "c \<ge> d" "d \<ge> e" "set ?rs = {a, b, c, d, e}"
    by (rule five_desc)
  have "spec_category cs # spec_tiebreak cs = handValue [a, b, c, d, e] (spec_flush cs)"
    using s(1-5) by (intro spec_sorted) (simp_all add: spec_ranks_eq)
  then show ?thesis
    using evaluate5_handValue [OF assms] s(1) by (simp add: spec_flush_eq)
qed

text \<open>
  C3. For every 5 cards, \<open>evaluate5\<close> returns the category followed by the tie-break
  values of the specification: the category is the first that applies in the order
  straight flush (flush and straight), four of a kind, full house (a triple and a pair),
  flush, straight, three of a kind, two pair, one pair, high card; the tie-break values
  are the straight-high for the two straight categories, all five ranks in descending
  order for flush and high card, and otherwise the ranks of the groups by descending
  count, then rank, followed by the kickers in descending order.
\<close>

theorem evaluate5_category_tiebreak:
  assumes "length cs = 5" and "distinct cs"
  shows "evaluate5 (map Some cs) = Some (spec_category cs # spec_tiebreak cs)"
  using assms(1) by (rule evaluate5_spec)

theorem evaluate5_category_tiebreak_witness:
  "length [\<lparr>rank = RK, suit = Su_s\<rparr>, \<lparr>rank = R9, suit = Su_h\<rparr>, \<lparr>rank = RK, suit = Su_d\<rparr>,
           \<lparr>rank = R9, suit = Su_s\<rparr>, \<lparr>rank = RA, suit = Su_c\<rparr>] = 5
   \<and> distinct [\<lparr>rank = RK, suit = Su_s\<rparr>, \<lparr>rank = R9, suit = Su_h\<rparr>, \<lparr>rank = RK, suit = Su_d\<rparr>,
           \<lparr>rank = R9, suit = Su_s\<rparr>, \<lparr>rank = RA, suit = Su_c\<rparr>]
   \<and> spec_category [\<lparr>rank = RK, suit = Su_s\<rparr>, \<lparr>rank = R9, suit = Su_h\<rparr>, \<lparr>rank = RK, suit = Su_d\<rparr>,
           \<lparr>rank = R9, suit = Su_s\<rparr>, \<lparr>rank = RA, suit = Su_c\<rparr>] = 2
   \<and> spec_tiebreak [\<lparr>rank = RK, suit = Su_s\<rparr>, \<lparr>rank = R9, suit = Su_h\<rparr>, \<lparr>rank = RK, suit = Su_d\<rparr>,
           \<lparr>rank = R9, suit = Su_s\<rparr>, \<lparr>rank = RA, suit = Su_c\<rparr>] = [13, 9, 14]
   \<and> evaluate5 (map Some [\<lparr>rank = RK, suit = Su_s\<rparr>, \<lparr>rank = R9, suit = Su_h\<rparr>,
           \<lparr>rank = RK, suit = Su_d\<rparr>, \<lparr>rank = R9, suit = Su_s\<rparr>, \<lparr>rank = RA, suit = Su_c\<rparr>])
       = Some [2, 13, 9, 14]"
proof -
  let ?cs = "[\<lparr>rank = RK, suit = Su_s\<rparr>, \<lparr>rank = R9, suit = Su_h\<rparr>, \<lparr>rank = RK, suit = Su_d\<rparr>,
           \<lparr>rank = R9, suit = Su_s\<rparr>, \<lparr>rank = RA, suit = Su_c\<rparr>]"
  have l: "length ?cs = 5" by simp
  have d: "distinct ?cs" by simp
  have c: "spec_category ?cs = 2" by code_simp
  have t: "spec_tiebreak ?cs = [13, 9, 14]" by code_simp
  have "evaluate5 (map Some ?cs) = Some [2, 13, 9, 14]"
    using evaluate5_category_tiebreak [OF l d] c t by simp
  with l d c t show ?thesis by blast
qed

section \<open>Straights and the wheel\<close>

lemma uniq_distinct: "distinct xs \<Longrightarrow> uniq xs = xs"
  by (simp add: uniq_def distinct_remdups_id)

lemma five_desc_strict:
  assumes "length xs = 5" and "distinct xs"
  obtains a b c d e where "js_sort desc xs = [a, b, c, d, e]"
    "a > b" "b > c" "c > d" "d > e" "set xs = {a, b, c, d, e}"
proof -
  obtain a b c d e where s: "js_sort desc xs = [a, b, c, d, e]"
    "a \<ge> b" "b \<ge> c" "c \<ge> d" "d \<ge> e" "set xs = {a, b, c, d, e}"
    using assms(1) by (rule five_desc)
  have "distinct (js_sort desc xs)"
    using assms(2) by (metis mset_js_sort mset_eq_imp_distinct_iff)
  then have "distinct [a, b, c, d, e]" using s(1) by simp
  then have "a > b" "b > c" "c > d" "d > e" using s(2-5) by auto
  with s(1,6) show ?thesis using that by blast
qed

lemma getStraightHigh_five:
  assumes "length rs = 5" and "distinct rs"
    and "js_sort desc rs = [a, b, c, d, e]" and "a > b" "b > c" "c > d" "d > e"
  shows "getStraightHigh rs =
           (if a - e = 4 then Some a
            else if [a, b, c, d, e] = [14, 5, 4, 3, 2] then Some 5 else None)"
proof -
  have w: "(14 \<in> set [a, b, c, d, e] \<and> 5 \<in> set [a, b, c, d, e] \<and> 4 \<in> set [a, b, c, d, e]
         \<and> 3 \<in> set [a, b, c, d, e] \<and> 2 \<in> set [a, b, c, d, e])
       = ([a, b, c, d, e] = [14, 5, 4, 3, 2])"
    using wheel_five [OF assms(4-7)] by simp
  show ?thesis
    unfolding getStraightHigh_def Let_def uniq_distinct [OF assms(2)] assms(3) w straightScan_five
    using assms(1) by simp
qed

lemma getStraightHigh_distinct:
  assumes "length rs = 5" and "distinct rs"
  shows "getStraightHigh rs = spec_straightHigh (js_sort desc rs)"
proof -
  obtain a b c d e where s: "js_sort desc rs = [a, b, c, d, e]"
    "a > b" "b > c" "c > d" "d > e" "set rs = {a, b, c, d, e}"
    using assms by (rule five_desc_strict)
  show ?thesis
    using getStraightHigh_five [OF assms s(1-5)] spec_straightHigh_five [OF s(2-5)] s(1)
    by simp
qed

lemma wheel_ranks:
  assumes "length cs = 5" and "set (map rank cs) = {RA, R2, R3, R4, R5}"
  shows "js_sort desc (map (\<lambda>c. RANK_VALUE (rank c)) cs) = [14, 5, 4, 3, 2]"
proof -
  let ?rs = "map (\<lambda>c. RANK_VALUE (rank c)) cs"
  have "set ?rs = RANK_VALUE ` set (map rank cs)" by auto
  then have set: "set ?rs = {14, 5, 4, 3, 2}" unfolding assms(2) by auto
  have "card (set ?rs) = length ?rs" unfolding set using assms(1) by simp
  then have "distinct ?rs" by (rule card_distinct)
  moreover have "length ?rs = 5" using assms(1) by simp
  ultimately obtain a b c d e where s: "js_sort desc ?rs = [a, b, c, d, e]"
    "a > b" "b > c" "c > d" "d > e" "set ?rs = {a, b, c, d, e}"
    using five_desc_strict by blast
  have "{14, 5, 4, 3, 2} \<subseteq> {a, b, c, d, e}" using set s(6) by simp
  then have "[a, b, c, d, e] = [14, 5, 4, 3, 2]" using wheel_five [OF s(2-5)] by blast
  with s(1) show ?thesis by simp
qed

text \<open>
  C5. Five cards of the ranks A, 2, 3, 4, 5 that are not all of one suit evaluate to
  category 4 (straight) with straight-high 5. On 5 distinct rank values that are the
  wheel, \<open>getStraightHigh\<close> is 5; on any other 5 distinct rank values it is \<open>r\<close> exactly
  when \<open>r, r-1, r-2, r-3, r-4\<close> are all present (and \<open>r\<close> is then the highest such rank),
  and it is \<open>null\<close> when there is no such rank: the ace is low in the wheel only.
\<close>

theorem wheel_and_straightHigh:
  "(length cs = 5 \<and> set (map rank cs) = {RA, R2, R3, R4, R5} \<and> \<not> spec_flush cs
      \<longrightarrow> evaluate5 (map Some cs) = Some [4, 5])
   \<and> (length rs = 5 \<and> distinct rs \<and> set rs = {14, 5, 4, 3, 2} \<longrightarrow> getStraightHigh rs = Some 5)
   \<and> (length rs = 5 \<and> distinct rs \<and> set rs \<noteq> {14, 5, 4, 3, 2} \<longrightarrow>
        (getStraightHigh rs = Some r) =
          ({r, r - 1, r - 2, r - 3, r - 4} \<subseteq> set rs
           \<and> (\<forall>r'. {r', r' - 1, r' - 2, r' - 3, r' - 4} \<subseteq> set rs \<longrightarrow> r' \<le> r))
        \<and> (getStraightHigh rs = None) =
          (\<forall>r'. \<not> {r', r' - 1, r' - 2, r' - 3, r' - 4} \<subseteq> set rs))"
proof -
  have A: "evaluate5 (map Some cs) = Some [4, 5]"
    if "length cs = 5" "set (map rank cs) = {RA, R2, R3, R4, R5}" "\<not> spec_flush cs"
    using that evaluate5_handValue [of cs] wheel_ranks [of cs] by (simp add: spec_flush_eq)
  have B: "getStraightHigh rs = Some 5" if h: "length rs = 5" "distinct rs" "set rs = {14, 5, 4, 3, 2}"
  proof -
    obtain a b c d e where s: "js_sort desc rs = [a, b, c, d, e]"
      "a > b" "b > c" "c > d" "d > e" "set rs = {a, b, c, d, e}"
      using h(1,2) by (rule five_desc_strict)
    have "{14, 5, 4, 3, 2} \<subseteq> {a, b, c, d, e}" using h(3) s(6) by simp
    then have "[a, b, c, d, e] = [14, 5, 4, 3, 2]" using wheel_five [OF s(2-5)] by blast
    then show ?thesis using getStraightHigh_five [OF h(1,2) s(1-5)] by simp
  qed
  have C: "(getStraightHigh rs = Some r) =
          ({r, r - 1, r - 2, r - 3, r - 4} \<subseteq> set rs
           \<and> (\<forall>r'. {r', r' - 1, r' - 2, r' - 3, r' - 4} \<subseteq> set rs \<longrightarrow> r' \<le> r))
        \<and> (getStraightHigh rs = None) =
          (\<forall>r'. \<not> {r', r' - 1, r' - 2, r' - 3, r' - 4} \<subseteq> set rs)"
    if h: "length rs = 5" "distinct rs" "set rs \<noteq> {14, 5, 4, 3, 2}"
  proof -
    obtain a b c d e where s: "js_sort desc rs = [a, b, c, d, e]"
      "a > b" "b > c" "c > d" "d > e" "set rs = {a, b, c, d, e}"
      using h(1,2) by (rule five_desc_strict)
    have nw: "[a, b, c, d, e] \<noteq> [14, 5, 4, 3, 2]" using h(3) s(6) by auto
    have g: "getStraightHigh rs = (if a - e = 4 then Some a else None)"
      using getStraightHigh_five [OF h(1,2) s(1-5)] nw by simp
    have run: "({x, x - 1, x - 2, x - 3, x - 4} \<subseteq> set rs) = (x = a \<and> a - e = 4)" for x
      unfolding s(6) by (rule run_five [OF s(2-5)])
    show ?thesis unfolding g run by auto
  qed
  show ?thesis using A B C by blast
qed

theorem wheel_and_straightHigh_witness:
  "evaluate5 (map Some [\<lparr>rank = R3, suit = Su_s\<rparr>, \<lparr>rank = RA, suit = Su_h\<rparr>,
       \<lparr>rank = R5, suit = Su_d\<rparr>, \<lparr>rank = R2, suit = Su_s\<rparr>, \<lparr>rank = R4, suit = Su_c\<rparr>]) = Some [4, 5]
   \<and> getStraightHigh [3, 14, 5, 2, 4] = Some 5
   \<and> getStraightHigh [9, 13, 10, 12, 11] = Some 13
   \<and> getStraightHigh [14, 13, 2, 3, 4] = None"
proof -
  let ?cs = "[\<lparr>rank = R3, suit = Su_s\<rparr>, \<lparr>rank = RA, suit = Su_h\<rparr>,
       \<lparr>rank = R5, suit = Su_d\<rparr>, \<lparr>rank = R2, suit = Su_s\<rparr>, \<lparr>rank = R4, suit = Su_c\<rparr>]"
  have h1: "length ?cs = 5 \<and> set (map rank ?cs) = {RA, R2, R3, R4, R5} \<and> \<not> spec_flush ?cs"
    by (auto simp: spec_flush_def)
  have 1: "evaluate5 (map Some ?cs) = Some [4, 5]"
    using wheel_and_straightHigh [where cs = ?cs] h1 by blast
  have h2: "length [3, 14, 5, 2, 4 :: int] = 5 \<and> distinct [3, 14, 5, 2, 4 :: int]
      \<and> set [3, 14, 5, 2, 4 :: int] = {14, 5, 4, 3, 2}" by auto
  have 2: "getStraightHigh [3, 14, 5, 2, 4] = Some 5"
    using wheel_and_straightHigh [where rs = "[3, 14, 5, 2, 4]"] h2 by blast
  have s3: "set [9, 13, 10, 12, 11 :: int] = {13, 12, 11, 10, 9}" by auto
  have "(13::int) \<in> {13, 12, 11, 10, 9}" "(13::int) \<notin> {14, 5, 4, 3, 2}" by simp_all
  then have n3: "{13, 12, 11, 10, 9 :: int} \<noteq> {14, 5, 4, 3, 2}" by metis
  have h3: "length [9, 13, 10, 12, 11 :: int] = 5 \<and> distinct [9, 13, 10, 12, 11 :: int]
      \<and> set [9, 13, 10, 12, 11 :: int] \<noteq> {14, 5, 4, 3, 2}"
    unfolding s3 using n3 by simp
  have run3: "({x, x - 1, x - 2, x - 3, x - 4} \<subseteq> {13, 12, 11, 10, 9 :: int}) = (x = 13 \<and> (13::int) - 9 = 4)"
    for x by (rule run_five) simp_all
  have r3: "{13, 13 - 1, 13 - 2, 13 - 3, 13 - 4} \<subseteq> set [9, 13, 10, 12, 11 :: int]
      \<and> (\<forall>r'. {r', r' - 1, r' - 2, r' - 3, r' - 4} \<subseteq> set [9, 13, 10, 12, 11 :: int] \<longrightarrow> r' \<le> 13)"
    unfolding s3 run3 by simp
  have 3: "getStraightHigh [9, 13, 10, 12, 11] = Some 13"
    using wheel_and_straightHigh [where rs = "[9, 13, 10, 12, 11]" and r = 13] h3 r3 by blast
  have s4: "set [14, 13, 2, 3, 4 :: int] = {14, 13, 4, 3, 2}" by auto
  have "(13::int) \<in> {14, 13, 4, 3, 2}" "(13::int) \<notin> {14, 5, 4, 3, 2}" by simp_all
  then have n4: "{14, 13, 4, 3, 2 :: int} \<noteq> {14, 5, 4, 3, 2}" by metis
  have h4: "length [14, 13, 2, 3, 4 :: int] = 5 \<and> distinct [14, 13, 2, 3, 4 :: int]
      \<and> set [14, 13, 2, 3, 4 :: int] \<noteq> {14, 5, 4, 3, 2}"
    unfolding s4 using n4 by simp
  have run4: "({x, x - 1, x - 2, x - 3, x - 4} \<subseteq> {14, 13, 4, 3, 2 :: int}) = (x = 14 \<and> (14::int) - 2 = 4)"
    for x by (rule run_five) simp_all
  have r4: "\<forall>r'. \<not> {r', r' - 1, r' - 2, r' - 3, r' - 4} \<subseteq> set [14, 13, 2, 3, 4 :: int]"
    unfolding s4 run4 by simp
  have 4: "getStraightHigh [14, 13, 2, 3, 4] = None"
    using wheel_and_straightHigh [where rs = "[14, 13, 2, 3, 4]"] h4 r4 by blast
  show ?thesis using 1 2 3 4 by blast
qed

section \<open>Partial-hand label\<close>

lemma RANK_VALUE_inj: "RANK_VALUE a = RANK_VALUE b \<longleftrightarrow> a = b"
  by (cases a; cases b) simp_all

lemma count_list_RANK_VALUE:
  "count_list (map RANK_VALUE rs) (RANK_VALUE r) = count_list rs r"
  by (induction rs) (simp_all add: RANK_VALUE_inj)

lemma maxMultiplicity_values:
  "maxMultiplicity cs =
     (let vs = map (\<lambda>c. RANK_VALUE (rank c)) cs in fold max (map (count_list vs) vs) 0)"
proof -
  have "map (count_list (map (\<lambda>c. RANK_VALUE (rank c)) cs)) (map (\<lambda>c. RANK_VALUE (rank c)) cs)
      = map (count_list (map rank cs)) (map rank cs)"
    using count_list_RANK_VALUE [of "map rank cs"] by (simp add: comp_def)
  then show ?thesis unfolding maxMultiplicity_def Let_def by (simp only:)
qed

lemma label_values:
  assumes "length vs < 5"
  shows "(let counts = countRanks vs; vals = js_sort desc (map snd counts)
          in if js_nth vals 0 = Some 2 then Some ''One Pair''
             else if js_nth vals 0 = Some 3 then Some ''Three of a Kind''
             else Some ''High Card'')
       = Some (let m = fold max (map (count_list vs) vs) 0
               in if m = 2 then ''One Pair''
                  else if m = 3 then ''Three of a Kind'' else ''High Card'')"
proof -
  consider "vs = []" | a where "vs = [a]" | a b where "vs = [a, b]"
    | a b c where "vs = [a, b, c]" | a b c d where "vs = [a, b, c, d]"
    using assms by (auto simp: less_Suc_eq length_Suc_conv eval_nat_numeral)
  then show ?thesis
  proof cases
    case (5 a b c d)
    show ?thesis
      unfolding 5
      by (cases "a = b"; cases "a = c"; cases "a = d"; cases "b = c"; cases "b = d"; cases "c = d";
          simp add: countRanks_def map_get0_def js_sort_def desc_def js_nth_def Let_def)
  next
    case (4 a b c)
    show ?thesis
      unfolding 4
      by (cases "a = b"; cases "a = c"; cases "b = c";
          simp add: countRanks_def map_get0_def js_sort_def desc_def js_nth_def Let_def)
  qed (auto simp: countRanks_def map_get0_def js_sort_def desc_def js_nth_def Let_def)
qed

text \<open>
  C10. For every list of fewer than 5 cards, \<open>getBestHandLabel\<close> is a function of the
  greatest rank multiplicity \<open>m\<close> alone: "One Pair" when \<open>m = 2\<close>, "Three of a Kind"
  when \<open>m = 3\<close>, and "High Card" otherwise (no card, one card, four of one rank).
\<close>

theorem getBestHandLabel_partial:
  assumes "length cs < 5" and "distinct cs"
  shows "getBestHandLabel cs =
           Some (if maxMultiplicity cs = 2 then ''One Pair''
                 else if maxMultiplicity cs = 3 then ''Three of a Kind''
                 else ''High Card'')"
proof -
  have "length (map (\<lambda>c. RANK_VALUE (rank c)) cs) < 5" using assms(1) by simp
  from label_values [OF this] show ?thesis
    unfolding getBestHandLabel_def maxMultiplicity_values using assms(1) by (simp add: Let_def)
qed

theorem getBestHandLabel_partial_witness:
  "getBestHandLabel [] = Some ''High Card''
   \<and> getBestHandLabel [\<lparr>rank = R2, suit = Su_s\<rparr>, \<lparr>rank = R2, suit = Su_c\<rparr>,
        \<lparr>rank = R3, suit = Su_s\<rparr>, \<lparr>rank = R3, suit = Su_c\<rparr>] = Some ''One Pair''
   \<and> getBestHandLabel [\<lparr>rank = R2, suit = Su_s\<rparr>, \<lparr>rank = R2, suit = Su_c\<rparr>,
        \<lparr>rank = R2, suit = Su_h\<rparr>] = Some ''Three of a Kind''
   \<and> getBestHandLabel [\<lparr>rank = R2, suit = Su_s\<rparr>, \<lparr>rank = R2, suit = Su_c\<rparr>,
        \<lparr>rank = R2, suit = Su_h\<rparr>, \<lparr>rank = R2, suit = Su_d\<rparr>] = Some ''High Card''"
proof -
  let ?two = "[\<lparr>rank = R2, suit = Su_s\<rparr>, \<lparr>rank = R2, suit = Su_c\<rparr>,
        \<lparr>rank = R3, suit = Su_s\<rparr>, \<lparr>rank = R3, suit = Su_c\<rparr>]"
  let ?three = "[\<lparr>rank = R2, suit = Su_s\<rparr>, \<lparr>rank = R2, suit = Su_c\<rparr>, \<lparr>rank = R2, suit = Su_h\<rparr>]"
  let ?four = "[\<lparr>rank = R2, suit = Su_s\<rparr>, \<lparr>rank = R2, suit = Su_c\<rparr>,
        \<lparr>rank = R2, suit = Su_h\<rparr>, \<lparr>rank = R2, suit = Su_d\<rparr>]"
  have m: "maxMultiplicity [] = 0" "maxMultiplicity ?two = 2" "maxMultiplicity ?three = 3"
    "maxMultiplicity ?four = 4"
    by (simp_all add: maxMultiplicity_def)
  have 0: "getBestHandLabel [] = Some ''High Card''"
    using getBestHandLabel_partial [of "[]"] m(1) by simp
  have 2: "getBestHandLabel ?two = Some ''One Pair''"
    using getBestHandLabel_partial [of ?two] m(2) by simp
  have 3: "getBestHandLabel ?three = Some ''Three of a Kind''"
    using getBestHandLabel_partial [of ?three] m(3) by simp
  have 4: "getBestHandLabel ?four = Some ''High Card''"
    using getBestHandLabel_partial [of ?four] m(4) by simp
  show ?thesis using 0 2 3 4 by blast
qed

section \<open>7-card selector: the maximum over all 5-card subsets\<close>

lemma COMBOS_7_5_value:
  "COMBOS_7_5 =
    [[0, 1, 2, 3, 4], [0, 1, 2, 3, 5], [0, 1, 2, 3, 6], [0, 1, 2, 4, 5],
     [0, 1, 2, 4, 6], [0, 1, 2, 5, 6], [0, 1, 3, 4, 5], [0, 1, 3, 4, 6],
     [0, 1, 3, 5, 6], [0, 1, 4, 5, 6], [0, 2, 3, 4, 5], [0, 2, 3, 4, 6],
     [0, 2, 3, 5, 6], [0, 2, 4, 5, 6], [0, 3, 4, 5, 6], [1, 2, 3, 4, 5],
     [1, 2, 3, 4, 6], [1, 2, 3, 5, 6], [1, 2, 4, 5, 6], [1, 3, 4, 5, 6],
     [2, 3, 4, 5, 6]]"
  by code_simp

lemma getCombos_6_value:
  "getCombos 6 =
    [[0, 1, 2, 3, 4], [0, 1, 2, 3, 5], [0, 1, 2, 4, 5], [0, 1, 3, 4, 5],
     [0, 2, 3, 4, 5], [1, 2, 3, 4, 5]]"
  by code_simp

lemma getCombos_5_value: "getCombos 5 = [[0, 1, 2, 3, 4]]"
  by code_simp

lemma getCombos_7_value: "getCombos 7 = COMBOS_7_5"
  by (simp add: getCombos_def)


lemma pick_7:
  "map (pick (map Some [c0, c1, c2, c3, c4, c5, c6])) COMBOS_7_5
     = map (map Some) (sub5 [c0, c1, c2, c3, c4, c5, c6])"
  unfolding COMBOS_7_5_value by (simp add: pick_def js_nth_def sub5_def Let_def)

lemma pick_6:
  "map (pick (map Some [c0, c1, c2, c3, c4, c5])) (getCombos 6)
     = map (map Some) (sub5 [c0, c1, c2, c3, c4, c5])"
  unfolding getCombos_6_value by (simp add: pick_def js_nth_def sub5_def Let_def)

lemma pick_5:
  "map (pick (map Some [c0, c1, c2, c3, c4])) (getCombos 5)
     = map (map Some) (sub5 [c0, c1, c2, c3, c4])"
  unfolding getCombos_5_value by (simp add: pick_def js_nth_def sub5_def Let_def)

lemma filter_in_subseqs: "filter P xs \<in> set (subseqs xs)"
  by (induction xs) (auto simp: Let_def)

lemma subseqs_subset: "ys \<in> set (subseqs xs) \<Longrightarrow> set ys \<subseteq> set xs"
  using subseqs_powset [of xs] by auto

lemma sub5_fiveSubset:
  assumes "h \<in> set (sub5 cs)" and "distinct cs"
  shows "fiveSubset h cs"
  using assms subseqs_subset [of h cs] subseqs_distinctD [of h cs]
  by (auto simp: sub5_def fiveSubset_def)

lemma fiveSubset_sub5:
  assumes "fiveSubset h cs" and "distinct cs"
  obtains h' where "h' \<in> set (sub5 cs)" "mset h' = mset h"
proof -
  let ?h = "filter (\<lambda>c. c \<in> set h) cs"
  have d: "distinct ?h" using assms(2) by simp
  have s: "set ?h = set h" using assms(1) by (auto simp: fiveSubset_def)
  have "distinct h" using assms(1) by (simp add: fiveSubset_def)
  with d s have m: "mset ?h = mset h"
    by (simp only: set_eq_iff_mset_eq_distinct)
  then have "length ?h = 5" using assms(1) by (metis fiveSubset_def size_mset)
  then have "?h \<in> set (sub5 cs)" by (simp add: sub5_def filter_in_subseqs)
  with m show ?thesis using that by blast
qed

lemma sort_mset_eq: "mset xs = mset ys \<Longrightarrow> sort xs = sort (ys :: int list)"
  by (metis sorted_list_of_multiset_mset)

lemma evaluate5_perm:
  assumes "length h = 5" and "mset h = mset h'"
  shows "evaluate5 (map Some h) = evaluate5 (map Some h')"
proof -
  have l: "length h' = 5" using assms by (metis size_mset)
  have "mset (map (\<lambda>c. RANK_VALUE (rank c)) h) = mset (map (\<lambda>c. RANK_VALUE (rank c)) h')"
    using assms(2) by simp
  then have "sort (map (\<lambda>c. RANK_VALUE (rank c)) h) = sort (map (\<lambda>c. RANK_VALUE (rank c)) h')"
    by (rule sort_mset_eq)
  then have r: "js_sort desc (map (\<lambda>c. RANK_VALUE (rank c)) h)
      = js_sort desc (map (\<lambda>c. RANK_VALUE (rank c)) h')"
    unfolding js_sort_desc_eq by simp
  have "set h = set h'" using assms(2) by (rule mset_eq_setD)
  then have "spec_flush h = spec_flush h'" by (simp add: spec_flush_def)
  then have f: "isFlush h = isFlush h'" by (simp add: spec_flush_eq)
  show ?thesis
    unfolding evaluate5_handValue [OF assms(1)] evaluate5_handValue [OF l] r f ..
qed

lemma compareRanks_refl: "compareRanks a a = 0"
  by (simp add: compareRanks_zero_iff)

lemma bestLoop_max:
  assumes "\<forall>hand \<in> set (map (pick cards) combos). \<exists>r. evaluate5 hand = Some r"
  shows "\<exists>r. bestLoop cards combos best = Some r
            \<and> (r = best \<or> (\<exists>hand \<in> set (map (pick cards) combos). evaluate5 hand = Some r))
            \<and> compareRanks r best \<ge> 0
            \<and> (\<forall>hand \<in> set (map (pick cards) combos). \<forall>x. evaluate5 hand = Some x
                  \<longrightarrow> compareRanks r x \<ge> 0)"
  using assms
proof (induction combos arbitrary: best)
  case Nil
  then show ?case by (simp add: compareRanks_refl)
next
  case (Cons combo rest)
  obtain x where x: "evaluate5 (pick cards combo) = Some x"
    using Cons.prems by auto
  define b where "b = (if compareRanks x best > 0 then x else best)"
  have bb: "compareRanks b best \<ge> 0"
    by (simp add: b_def compareRanks_refl)
  have bx: "compareRanks b x \<ge> 0"
    using compareRanks_neg [of x best] by (simp add: b_def compareRanks_refl)
  have "\<forall>hand \<in> set (map (pick cards) rest). \<exists>r. evaluate5 hand = Some r"
    using Cons.prems by simp
  from Cons.IH [OF this, of b] obtain r where r: "bestLoop cards rest b = Some r"
    "r = b \<or> (\<exists>hand \<in> set (map (pick cards) rest). evaluate5 hand = Some r)"
    "compareRanks r b \<ge> 0"
    "\<forall>hand \<in> set (map (pick cards) rest). \<forall>y. evaluate5 hand = Some y \<longrightarrow> compareRanks r y \<ge> 0"
    by blast
  have 1: "bestLoop cards (combo # rest) best = Some r"
    using x r(1) by (simp add: b_def)
  have 2: "r = best \<or> (\<exists>hand \<in> set (map (pick cards) (combo # rest)). evaluate5 hand = Some r)"
    using r(2) x by (auto simp: b_def split: if_splits)
  have 3: "compareRanks r best \<ge> 0"
    using compareRanks_trans_ge [OF r(3) bb] .
  have 4: "compareRanks r x \<ge> 0"
    using compareRanks_trans_ge [OF r(3) bx] .
  have 5: "\<forall>hand \<in> set (map (pick cards) (combo # rest)). \<forall>y. evaluate5 hand = Some y
             \<longrightarrow> compareRanks r y \<ge> 0"
    using r(4) 4 x by auto
  show ?case using 1 2 3 5 by blast
qed

lemma selector_max:
  assumes "map (pick (map Some cs)) combos = map (map Some) (sub5 cs)"
    and "sub5 cs \<noteq> []" and "distinct cs"
  shows "\<exists>best. do { c0 \<leftarrow> js_nth combos 0;
                     first \<leftarrow> evaluate5 (pick (map Some cs) c0);
                     bestLoop (map Some cs) (drop 1 combos) first } = Some best
           \<and> (\<exists>h. fiveSubset h cs \<and> evaluate5 (map Some h) = Some best)
           \<and> (\<forall>h. fiveSubset h cs \<longrightarrow>
                 (\<exists>r. evaluate5 (map Some h) = Some r \<and> compareRanks best r \<ge> 0))"
proof -
  let ?cards = "map Some cs"
  obtain c0 rest where combos: "combos = c0 # rest"
    using assms(1,2) by (cases combos) auto
  have ok: "\<exists>r. evaluate5 hand = Some r" if hd: "hand \<in> set (map (pick ?cards) combos)" for hand
  proof -
    obtain h where h: "h \<in> set (sub5 cs)" "hand = map Some h"
      using hd unfolding assms(1) by auto
    then have "length h = 5" by (simp add: sub5_def)
    then show ?thesis using h(2) evaluate5_length by metis
  qed
  obtain first where first: "evaluate5 (pick ?cards c0) = Some first"
    using ok [of "pick ?cards c0"] combos by auto
  have "\<forall>hand \<in> set (map (pick ?cards) rest). \<exists>r. evaluate5 hand = Some r"
    using ok combos by simp
  from bestLoop_max [OF this, of first] obtain best where b:
    "bestLoop ?cards rest first = Some best"
    "best = first \<or> (\<exists>hand \<in> set (map (pick ?cards) rest). evaluate5 hand = Some best)"
    "compareRanks best first \<ge> 0"
    "\<forall>hand \<in> set (map (pick ?cards) rest). \<forall>y. evaluate5 hand = Some y \<longrightarrow> compareRanks best y \<ge> 0"
    by blast
  have run: "do { c0 \<leftarrow> js_nth combos 0;
                 first \<leftarrow> evaluate5 (pick ?cards c0);
                 bestLoop ?cards (drop 1 combos) first } = Some best"
    using first b(1) by (simp add: combos js_nth_def)
  have all: "compareRanks best y \<ge> 0"
    if "hand \<in> set (map (pick ?cards) combos)" "evaluate5 hand = Some y" for hand y
    using that b(3,4) first unfolding combos by auto
  have "\<exists>hand \<in> set (map (pick ?cards) combos). evaluate5 hand = Some best"
    using b(2) first unfolding combos by auto
  then obtain h0 where h0: "h0 \<in> set (sub5 cs)" "evaluate5 (map Some h0) = Some best"
    unfolding assms(1) by auto
  have ex: "\<exists>h. fiveSubset h cs \<and> evaluate5 (map Some h) = Some best"
    using h0 sub5_fiveSubset [OF h0(1) assms(3)] by blast
  have "\<exists>r. evaluate5 (map Some h) = Some r \<and> compareRanks best r \<ge> 0"
    if fs: "fiveSubset h cs" for h
  proof -
    obtain h' where h': "h' \<in> set (sub5 cs)" "mset h' = mset h"
      using fs assms(3) by (rule fiveSubset_sub5)
    have "length h = 5" using fs by (simp add: fiveSubset_def)
    then have e: "evaluate5 (map Some h) = evaluate5 (map Some h')"
      using h'(2) by (intro evaluate5_perm) simp_all
    have m: "map Some h' \<in> set (map (pick ?cards) combos)"
      unfolding assms(1) using h'(1) by simp
    obtain r where r: "evaluate5 (map Some h') = Some r" using ok [OF m] by blast
    then have "compareRanks best r \<ge> 0" using all [OF m] by simp
    with r e show ?thesis by simp
  qed
  with run ex show ?thesis by blast
qed

lemma those_None: "None \<in> set xs \<Longrightarrow> those xs = None"
  by (induction xs) (auto split: option.splits)

lemma evaluate5_undefined: "None \<in> set hand \<Longrightarrow> evaluate5 hand = None"
  by (simp add: evaluate5_def those_None)

lemma pick_undefined:
  assumes "idx \<in> set combo" and "length cards \<le> idx"
  shows "None \<in> set (pick cards combo)"
proof -
  have "(case js_nth cards idx of None \<Rightarrow> None | Some c \<Rightarrow> c) = None"
    using assms(2) by (simp add: js_nth_def)
  then show ?thesis
    unfolding pick_def using assms(1) by (metis (mono_tags, lifting) image_eqI list.set_map)
qed

lemma bestLoop_None:
  assumes "combo \<in> set combos" and "evaluate5 (pick cards combo) = None"
  shows "bestLoop cards combos best = None"
  using assms
proof (induction combos arbitrary: best)
  case Nil
  then show ?case by simp
next
  case (Cons c rest)
  show ?case
  proof (cases "evaluate5 (pick cards c)")
    case None
    then show ?thesis by simp
  next
    case (Some hand)
    then have "combo \<in> set rest" using Cons.prems by auto
    then show ?thesis using Cons.IH Cons.prems(2) Some by simp
  qed
qed

lemma COMBOS_7_5_first: "js_nth COMBOS_7_5 0 = Some [0, 1, 2, 3, 4]"
  by (simp add: COMBOS_7_5_value js_nth_def)

lemma COMBOS_7_5_last: "[2, 3, 4, 5, 6] \<in> set (drop 1 COMBOS_7_5)"
  by (simp add: COMBOS_7_5_value)

lemma evaluate7_short:
  assumes "length cards < 7"
  shows "evaluate7 cards = None"
proof (cases "evaluate5 (pick cards [0, 1, 2, 3, 4])")
  case None
  then show ?thesis unfolding evaluate7_def COMBOS_7_5_first by simp
next
  case (Some first)
  have "None \<in> set (pick cards [2, 3, 4, 5, 6])"
    using assms by (intro pick_undefined [of 6]) simp_all
  then have "evaluate5 (pick cards [2, 3, 4, 5, 6]) = None" by (rule evaluate5_undefined)
  with COMBOS_7_5_last have "bestLoop cards (drop 1 COMBOS_7_5) first = None"
    by (rule bestLoop_None)
  with Some show ?thesis unfolding evaluate7_def COMBOS_7_5_first by simp
qed

lemma length6E:
  assumes "length ys = 6"
  obtains a b c d e f where "ys = [a, b, c, d, e, f]"
  using assms by (auto simp: length_Suc_conv eval_nat_numeral)

lemma length7E:
  assumes "length ys = 7"
  obtains a b c d e f g where "ys = [a, b, c, d, e, f, g]"
  using assms by (auto simp: length_Suc_conv eval_nat_numeral)

lemma pick_getCombos:
  assumes "5 \<le> length cs" and "length cs \<le> 7"
  shows "map (pick (map Some cs)) (getCombos (length cs)) = map (map Some) (sub5 cs)
       \<and> sub5 cs \<noteq> []"
proof -
  consider "length cs = 5" | "length cs = 6" | "length cs = 7" using assms by linarith
  then have ne: "getCombos (length cs) \<noteq> []"
  proof cases
    case 1
    show ?thesis unfolding 1 getCombos_5_value by simp
  next
    case 2
    show ?thesis unfolding 2 getCombos_6_value by simp
  next
    case 3
    show ?thesis unfolding 3 getCombos_7_value COMBOS_7_5_value by simp
  qed
  consider "length cs = 5" | "length cs = 6" | "length cs = 7" using assms by linarith
  then have eq: "map (pick (map Some cs)) (getCombos (length cs)) = map (map Some) (sub5 cs)"
  proof cases
    case 1
    then obtain a b c d e where cs: "cs = [a, b, c, d, e]" by (rule length5E)
    show ?thesis unfolding 1 unfolding cs by (rule pick_5)
  next
    case 2
    then obtain a b c d e f where cs: "cs = [a, b, c, d, e, f]" by (rule length6E)
    show ?thesis unfolding 2 unfolding cs by (rule pick_6)
  next
    case 3
    then obtain a b c d e f g where cs: "cs = [a, b, c, d, e, f, g]" by (rule length7E)
    show ?thesis unfolding 3 getCombos_7_value unfolding cs by (rule pick_7)
  qed
  have "sub5 cs \<noteq> []"
  proof
    assume "sub5 cs = []"
    then have "map (pick (map Some cs)) (getCombos (length cs)) = []" using eq by simp
    then show False using ne by simp
  qed
  with eq show ?thesis by blast
qed

text \<open>
  C6, as the code has it. For exactly 7 distinct cards \<open>evaluate7\<close> goes through the 21
  index combinations of \<open>COMBOS_7_5\<close> and returns the greatest descriptor: it is the
  value of \<open>evaluate5\<close> on some 5-card subset and compares greater than or equal to the
  value on every 5-card subset. For 5, 6 or 7 distinct cards the same loop over
  \<open>getCombos\<close> (1, 6 and 21 combinations) in \<open>getBestHandLabel\<close> finds that greatest
  descriptor and returns the label of its category. On fewer than 7 cards \<open>evaluate7\<close>
  itself returns nothing: it reads a card that is not there and throws.
\<close>

theorem evaluate7_maximum:
  "(length cs = 7 \<and> distinct cs \<longrightarrow>
      (\<exists>best. evaluate7 (map Some cs) = Some best
         \<and> (\<exists>h. fiveSubset h cs \<and> evaluate5 (map Some h) = Some best)
         \<and> (\<forall>h. fiveSubset h cs \<longrightarrow>
               (\<exists>r. evaluate5 (map Some h) = Some r \<and> compareRanks best r \<ge> 0))))
   \<and> (5 \<le> length cs \<and> length cs \<le> 7 \<and> distinct cs \<longrightarrow>
      (\<exists>best. getBestHandLabel cs = Some (rankToLabel (hd best))
         \<and> (\<exists>h. fiveSubset h cs \<and> evaluate5 (map Some h) = Some best)
         \<and> (\<forall>h. fiveSubset h cs \<longrightarrow>
               (\<exists>r. evaluate5 (map Some h) = Some r \<and> compareRanks best r \<ge> 0))))
   \<and> length COMBOS_7_5 = 21 \<and> length (getCombos 7) = 21
   \<and> length (getCombos 6) = 6 \<and> length (getCombos 5) = 1
   \<and> (length cs < 7 \<longrightarrow> evaluate7 (map Some cs) = None)"
proof -
  have A: "\<exists>best. evaluate7 (map Some cs) = Some best
         \<and> (\<exists>h. fiveSubset h cs \<and> evaluate5 (map Some h) = Some best)
         \<and> (\<forall>h. fiveSubset h cs \<longrightarrow>
               (\<exists>r. evaluate5 (map Some h) = Some r \<and> compareRanks best r \<ge> 0))"
    if h: "length cs = 7" "distinct cs"
  proof -
    have "map (pick (map Some cs)) COMBOS_7_5 = map (map Some) (sub5 cs)" "sub5 cs \<noteq> []"
      using pick_getCombos [of cs] h(1) by (simp_all add: getCombos_7_value)
    from selector_max [OF this h(2)] show ?thesis by (simp add: evaluate7_def)
  qed
  have B: "\<exists>best. getBestHandLabel cs = Some (rankToLabel (hd best))
         \<and> (\<exists>h. fiveSubset h cs \<and> evaluate5 (map Some h) = Some best)
         \<and> (\<forall>h. fiveSubset h cs \<longrightarrow>
               (\<exists>r. evaluate5 (map Some h) = Some r \<and> compareRanks best r \<ge> 0))"
    if h: "5 \<le> length cs" "length cs \<le> 7" "distinct cs"
  proof -
    have "map (pick (map Some cs)) (getCombos (length cs)) = map (map Some) (sub5 cs)"
      "sub5 cs \<noteq> []"
      using pick_getCombos [OF h(1,2)] by simp_all
    from selector_max [OF this h(3)] obtain best where b:
      "do { c0 \<leftarrow> js_nth (getCombos (length cs)) 0;
            first \<leftarrow> evaluate5 (pick (map Some cs) c0);
            bestLoop (map Some cs) (drop 1 (getCombos (length cs))) first } = Some best"
      "\<exists>h. fiveSubset h cs \<and> evaluate5 (map Some h) = Some best"
      "\<forall>h. fiveSubset h cs \<longrightarrow> (\<exists>r. evaluate5 (map Some h) = Some r \<and> compareRanks best r \<ge> 0)"
      by blast
    obtain h0 where h0: "fiveSubset h0 cs" "evaluate5 (map Some h0) = Some best"
      using b(2) by blast
    have "length h0 = 5" using h0(1) by (simp add: fiveSubset_def)
    then have "best \<noteq> []" using h0(2) by (metis evaluate5_length option.inject)
    then have l: "(case js_nth best 0 of None \<Rightarrow> ''High Card'' | Some r \<Rightarrow> rankToLabel r)
        = rankToLabel (hd best)"
      by (cases best) (simp_all add: js_nth_def del: rankToLabel.simps)
    have "getBestHandLabel cs = Some (rankToLabel (hd best))"
    proof -
      have "getBestHandLabel cs =
          do { best \<leftarrow> do { c0 \<leftarrow> js_nth (getCombos (length cs)) 0;
                              first \<leftarrow> evaluate5 (pick (map Some cs) c0);
                              bestLoop (map Some cs) (drop 1 (getCombos (length cs))) first };
               Some (case js_nth best 0 of None \<Rightarrow> ''High Card'' | Some r \<Rightarrow> rankToLabel r) }"
        using h(1) by (simp add: getBestHandLabel_def Let_def del: rankToLabel.simps)
      then show ?thesis unfolding b(1) using l by (simp del: rankToLabel.simps)
    qed
    with b(2,3) show ?thesis by blast
  qed
  have C: "evaluate7 (map Some cs) = None" if "length cs < 7"
    using that by (intro evaluate7_short) simp
  have N: "length COMBOS_7_5 = 21" "length (getCombos 7) = 21"
    "length (getCombos 6) = 6" "length (getCombos 5) = 1"
    unfolding getCombos_7_value getCombos_6_value getCombos_5_value COMBOS_7_5_value by simp_all
  show ?thesis
    by (intro conjI impI N; (elim conjE)?; (rule A B C; assumption))
qed


text \<open>
  The claim as worded also covers 5 and 6 cards. On five distinct cards \<open>evaluate7\<close>
  returns no descriptor, although the one 5-card subset has one.
\<close>

theorem evaluate7_five_cards_counterexample:
  "evaluate7 (map Some [\<lparr>rank = R2, suit = Su_c\<rparr>, \<lparr>rank = R2, suit = Su_d\<rparr>,
       \<lparr>rank = R2, suit = Su_h\<rparr>, \<lparr>rank = R2, suit = Su_s\<rparr>, \<lparr>rank = RK, suit = Su_s\<rparr>]) = None
   \<and> evaluate5 (map Some [\<lparr>rank = R2, suit = Su_c\<rparr>, \<lparr>rank = R2, suit = Su_d\<rparr>,
       \<lparr>rank = R2, suit = Su_h\<rparr>, \<lparr>rank = R2, suit = Su_s\<rparr>, \<lparr>rank = RK, suit = Su_s\<rparr>])
     = Some [7, 2, 13]"
  by code_simp

theorem evaluate7_maximum_witness:
  "length [\<lparr>rank = R2, suit = Su_c\<rparr>, \<lparr>rank = R2, suit = Su_d\<rparr>, \<lparr>rank = R2, suit = Su_h\<rparr>,
       \<lparr>rank = R2, suit = Su_s\<rparr>, \<lparr>rank = RK, suit = Su_s\<rparr>, \<lparr>rank = RQ, suit = Su_d\<rparr>,
       \<lparr>rank = RJ, suit = Su_d\<rparr>] = 7
   \<and> evaluate7 (map Some [\<lparr>rank = R2, suit = Su_c\<rparr>, \<lparr>rank = R2, suit = Su_d\<rparr>,
       \<lparr>rank = R2, suit = Su_h\<rparr>, \<lparr>rank = R2, suit = Su_s\<rparr>, \<lparr>rank = RK, suit = Su_s\<rparr>,
       \<lparr>rank = RQ, suit = Su_d\<rparr>, \<lparr>rank = RJ, suit = Su_d\<rparr>]) = Some [7, 2, 13]
   \<and> evaluate5 (map Some [\<lparr>rank = RJ, suit = Su_d\<rparr>, \<lparr>rank = RQ, suit = Su_d\<rparr>,
       \<lparr>rank = RK, suit = Su_s\<rparr>, \<lparr>rank = R2, suit = Su_c\<rparr>, \<lparr>rank = R2, suit = Su_d\<rparr>])
     = Some [1, 2, 13, 12, 11]
   \<and> compareRanks [7, 2, 13] [1, 2, 13, 12, 11] \<ge> 0
   \<and> getBestHandLabel [\<lparr>rank = R2, suit = Su_c\<rparr>, \<lparr>rank = R2, suit = Su_d\<rparr>,
       \<lparr>rank = R2, suit = Su_h\<rparr>, \<lparr>rank = R2, suit = Su_s\<rparr>, \<lparr>rank = RK, suit = Su_s\<rparr>,
       \<lparr>rank = RQ, suit = Su_d\<rparr>] = Some ''Four of a Kind''
   \<and> (\<exists>best. Some ''Four of a Kind'' = Some (rankToLabel (hd best))
         \<and> (\<exists>h. fiveSubset h [\<lparr>rank = R2, suit = Su_c\<rparr>, \<lparr>rank = R2, suit = Su_d\<rparr>,
               \<lparr>rank = R2, suit = Su_h\<rparr>, \<lparr>rank = R2, suit = Su_s\<rparr>, \<lparr>rank = RK, suit = Su_s\<rparr>,
               \<lparr>rank = RQ, suit = Su_d\<rparr>] \<and> evaluate5 (map Some h) = Some best))"
proof -
  let ?cs = "[\<lparr>rank = R2, suit = Su_c\<rparr>, \<lparr>rank = R2, suit = Su_d\<rparr>, \<lparr>rank = R2, suit = Su_h\<rparr>,
       \<lparr>rank = R2, suit = Su_s\<rparr>, \<lparr>rank = RK, suit = Su_s\<rparr>, \<lparr>rank = RQ, suit = Su_d\<rparr>,
       \<lparr>rank = RJ, suit = Su_d\<rparr>]"
  let ?h = "[\<lparr>rank = RJ, suit = Su_d\<rparr>, \<lparr>rank = RQ, suit = Su_d\<rparr>,
       \<lparr>rank = RK, suit = Su_s\<rparr>, \<lparr>rank = R2, suit = Su_c\<rparr>, \<lparr>rank = R2, suit = Su_d\<rparr>]"
  let ?six = "[\<lparr>rank = R2, suit = Su_c\<rparr>, \<lparr>rank = R2, suit = Su_d\<rparr>,
       \<lparr>rank = R2, suit = Su_h\<rparr>, \<lparr>rank = R2, suit = Su_s\<rparr>, \<lparr>rank = RK, suit = Su_s\<rparr>,
       \<lparr>rank = RQ, suit = Su_d\<rparr>]"
  have l: "length ?cs = 7" and d: "distinct ?cs" by simp_all
  have e7: "evaluate7 (map Some ?cs) = Some [7, 2, 13]" by code_simp
  have e5: "evaluate5 (map Some ?h) = Some [1, 2, 13, 12, 11]" by code_simp
  have fs: "fiveSubset ?h ?cs" by (simp add: fiveSubset_def)
  from evaluate7_maximum [of ?cs] l d obtain best where
    b: "evaluate7 (map Some ?cs) = Some best"
      "\<forall>h. fiveSubset h ?cs \<longrightarrow> (\<exists>r. evaluate5 (map Some h) = Some r \<and> compareRanks best r \<ge> 0)"
    by blast
  from b(1) e7 have "best = [7, 2, 13]" by simp
  with b(2) fs e5 have c: "compareRanks [7, 2, 13] [1, 2, 13, 12, 11] \<ge> 0" by fastforce
  have l6: "5 \<le> length ?six" "length ?six \<le> 7" "distinct ?six" by simp_all
  from evaluate7_maximum [of ?six] l6 obtain best6 where
    b6: "getBestHandLabel ?six = Some (rankToLabel (hd best6))"
      "\<exists>h. fiveSubset h ?six \<and> evaluate5 (map Some h) = Some best6"
      "\<forall>h. fiveSubset h ?six \<longrightarrow> (\<exists>r. evaluate5 (map Some h) = Some r \<and> compareRanks best6 r \<ge> 0)"
    by blast
  have lab: "getBestHandLabel ?six = Some ''Four of a Kind''" by code_simp
  have ex: "\<exists>best. Some ''Four of a Kind'' = Some (rankToLabel (hd best))
         \<and> (\<exists>h. fiveSubset h ?six \<and> evaluate5 (map Some h) = Some best)"
    using b6(1,2) unfolding lab by blast
  show ?thesis using l e7 e5 c lab ex by blast
qed

section \<open>Simulator: drawing from the deck\<close>

lemma draw_index:
  assumes "validRandom rnd" and "0 < n"
  shows "nat \<lfloor>rnd k * real n\<rfloor> < n"
proof -
  have r: "0 \<le> rnd k" "rnd k < 1" using assms(1) by (simp_all add: validRandom_def)
  have "rnd k * real n < real n" using r(2) assms(2) by simp
  then have "\<lfloor>rnd k * real n\<rfloor> < int n" by (simp add: floor_less_iff)
  then show ?thesis using assms(2) by linarith
qed

lemma remove_nth_distinct:
  assumes "distinct xs" and "i < length xs"
  shows "distinct (take i xs @ drop (Suc i) xs)
       \<and> set (take i xs @ drop (Suc i) xs) = set xs - {xs ! i}
       \<and> length (take i xs @ drop (Suc i) xs) = length xs - 1"
proof -
  have xs: "xs = take i xs @ xs ! i # drop (Suc i) xs"
    using assms(2) by (rule id_take_nth_drop)
  have d: "distinct (take i xs @ xs ! i # drop (Suc i) xs)" using assms(1) xs by simp
  have s: "set xs = set (take i xs @ xs ! i # drop (Suc i) xs)" using xs by simp
  have "distinct (take i xs @ drop (Suc i) xs)" using d by simp
  moreover have "set (take i xs @ drop (Suc i) xs) = set xs - {xs ! i}"
    unfolding s using d by auto
  moreover have "length (take i xs @ drop (Suc i) xs) = length xs - 1"
    using assms(2) by simp
  ultimately show ?thesis by blast
qed

lemma drawRandom_ok:
  assumes "validRandom rnd" and "distinct deck" and "deck \<noteq> []"
  obtains c deck' where "drawRandom rnd (deck, k) = (Some c, (deck', Suc k))"
    "c \<in> set deck" "distinct deck'" "set deck' = set deck - {c}"
    "length deck' = length deck - 1"
proof -
  let ?i = "nat \<lfloor>rnd k * real (length deck)\<rfloor>"
  have i: "?i < length deck" using assms(1,3) by (intro draw_index) simp_all
  have "drawRandom rnd (deck, k) = (Some (deck ! ?i), (take ?i deck @ drop (Suc ?i) deck, Suc k))"
    using i by (simp add: drawRandom_def js_nth_def Let_def)
  moreover have "deck ! ?i \<in> set deck" using i by simp
  ultimately show ?thesis
    using remove_nth_distinct [OF assms(2) i] that by blast
qed

lemma drawOpponents_ok:
  assumes "validRandom rnd" and "distinct deck" and "2 * n \<le> length deck"
  shows "\<exists>hs deck'. drawOpponents rnd n (deck, k) = (map (map Some) hs, (deck', k + 2 * n))
           \<and> length hs = n \<and> (\<forall>h \<in> set hs. length h = 2)
           \<and> distinct (concat hs) \<and> set (concat hs) \<subseteq> set deck
           \<and> distinct deck' \<and> set deck' = set deck - set (concat hs)
           \<and> length deck' = length deck - 2 * n"
  using assms(2,3)
proof (induction n arbitrary: deck k)
  case 0
  then show ?case by simp
next
  case (Suc n)
  have "deck \<noteq> []" using Suc.prems(2) by auto
  then obtain c1 d1 where 1: "drawRandom rnd (deck, k) = (Some c1, (d1, Suc k))"
    "c1 \<in> set deck" "distinct d1" "set d1 = set deck - {c1}" "length d1 = length deck - 1"
    using drawRandom_ok [OF assms(1) Suc.prems(1)] by metis
  have "d1 \<noteq> []" using 1(5) Suc.prems(2) by auto
  then obtain c2 d2 where 2: "drawRandom rnd (d1, Suc k) = (Some c2, (d2, Suc (Suc k)))"
    "c2 \<in> set d1" "distinct d2" "set d2 = set d1 - {c2}" "length d2 = length d1 - 1"
    using drawRandom_ok [OF assms(1) 1(3)] by metis
  have "2 * n \<le> length d2" using 1(5) 2(5) Suc.prems(2) by simp
  from Suc.IH [OF 2(3) this, of "Suc (Suc k)"] obtain hs d3 where 3:
    "drawOpponents rnd n (d2, Suc (Suc k)) = (map (map Some) hs, (d3, Suc (Suc k) + 2 * n))"
    "length hs = n" "\<forall>h \<in> set hs. length h = 2"
    "distinct (concat hs)" "set (concat hs) \<subseteq> set d2"
    "distinct d3" "set d3 = set d2 - set (concat hs)" "length d3 = length d2 - 2 * n"
    by blast
  let ?hs = "[c1, c2] # hs"
  have a: "drawOpponents rnd (Suc n) (deck, k) = (map (map Some) ?hs, (d3, k + 2 * Suc n))"
    using 1(1) 2(1) 3(1) by simp
  have b: "length ?hs = Suc n" "\<forall>h \<in> set ?hs. length h = 2" using 3(2,3) by simp_all
  have c12: "c1 \<noteq> c2" using 1(4) 2(2) by auto
  have c: "distinct (concat ?hs)" using 3(4,5) 2(4) 1(4) c12 by auto
  have d: "set (concat ?hs) \<subseteq> set deck" using 3(5) 2(2,4) 1(2,4) by auto
  have e: "set d3 = set deck - set (concat ?hs)" using 3(7) 2(4) 1(4) by auto
  have f: "length d3 = length deck - 2 * Suc n" using 3(8) 2(5) 1(5) by simp
  show ?case using a b c d e f 3(6) by blast
qed

lemma fillBoard_ok:
  assumes "validRandom rnd"
  shows "distinct deck \<Longrightarrow> length fb + m = 5 \<Longrightarrow> m \<le> length deck \<Longrightarrow>
         \<exists>new deck'. fillBoard rnd fb (deck, k) = (fb @ map Some new, (deck', k + m))
           \<and> length new = m \<and> distinct new \<and> set new \<subseteq> set deck
           \<and> distinct deck' \<and> set deck' = set deck - set new"
proof (induction m arbitrary: fb deck k)
  case 0
  then have "fillBoard rnd fb (deck, k) = (fb, (deck, k))"
    by (subst fillBoard.simps) simp
  then show ?case using 0 by simp
next
  case (Suc m)
  have "deck \<noteq> []" using Suc.prems(3) by auto
  then obtain c d1 where 1: "drawRandom rnd (deck, k) = (Some c, (d1, Suc k))"
    "c \<in> set deck" "distinct d1" "set d1 = set deck - {c}" "length d1 = length deck - 1"
    using drawRandom_ok [OF assms Suc.prems(1)] by metis
  have "length (fb @ [Some c]) + m = 5" "m \<le> length d1"
    using Suc.prems(2,3) 1(5) by simp_all
  from Suc.IH [OF 1(3) this, of "Suc k"] obtain new d2 where 2:
    "fillBoard rnd (fb @ [Some c]) (d1, Suc k) = ((fb @ [Some c]) @ map Some new, (d2, Suc k + m))"
    "length new = m" "distinct new" "set new \<subseteq> set d1" "distinct d2"
    "set d2 = set d1 - set new"
    by blast
  have "length fb < 5" using Suc.prems(2) by simp
  then have a: "fillBoard rnd fb (deck, k) = (fb @ map Some (c # new), (d2, k + Suc m))"
    using 1(1) 2(1) by (subst fillBoard.simps) simp
  have b: "length (c # new) = Suc m" "distinct (c # new)" "set (c # new) \<subseteq> set deck"
    using 2(2,3,4) 1(2,4) by auto
  have "set d2 = set deck - set (c # new)" using 2(6) 1(4) by auto
  with a b 2(5) show ?case by blast
qed

section \<open>Simulator: the tally and the credit\<close>

lemma tally_tallyRanks:
  assumes "list_all2 (\<lambda>hand r. evaluate7 (hand @ fullBoard) = Some r) opps rs"
  shows "tally fullBoard opps index acc = Some (tallyRanks rs index acc)"
  using assms
proof (induction opps rs arbitrary: index acc rule: list_all2_induct)
  case Nil
  then show ?case by simp
next
  case (Cons hand opps r rs)
  obtain best winners where acc: "acc = (best, winners)" by (cases acc)
  show ?case unfolding acc using Cons by (simp add: Let_def)
qed

lemma compareRanks_le_trans:
  assumes "compareRanks a b \<le> 0" and "compareRanks b c \<le> 0"
  shows "compareRanks a c \<le> 0"
proof -
  have "compareRanks c b \<ge> 0" "compareRanks b a \<ge> 0"
    using assms compareRanks_neg [of c b] compareRanks_neg [of b a] by simp_all
  then have "compareRanks c a \<ge> 0" by (rule compareRanks_trans_ge)
  then show ?thesis using compareRanks_neg [of a c] by simp
qed

lemma compareRanks_below_greater:
  assumes "compareRanks r best > 0" and "compareRanks x best \<le> 0"
  shows "compareRanks x r < 0"
proof -
  have "compareRanks best x \<ge> 0" using assms(2) compareRanks_neg [of best x] by simp
  then have "compareRanks r x > 0" using assms(1) by (rule compareRanks_trans_pos [rotated])
  then show ?thesis using compareRanks_neg [of x r] by simp
qed

lemma tallyRanks_invariant:
  assumes "tallyRanks rs index (best, winners) = (best', winners')"
    and "heroRank \<in> set seen" and "0 \<le> index"
    and "best \<in> set seen" and "\<forall>r \<in> set seen. compareRanks r best \<le> 0"
    and "length winners = length (filter (\<lambda>r. compareRanks r best = 0) seen)"
    and "(-1 \<in> set winners) = (compareRanks heroRank best = 0)"
  shows "best' \<in> set (seen @ rs) \<and> (\<forall>r \<in> set (seen @ rs). compareRanks r best' \<le> 0)
       \<and> length winners' = length (filter (\<lambda>r. compareRanks r best' = 0) (seen @ rs))
       \<and> (-1 \<in> set winners') = (compareRanks heroRank best' = 0)"
  using assms
proof (induction rs arbitrary: index best winners seen)
  case Nil
  then show ?case by simp
next
  case (Cons r rs)
  let ?acc = "if compareRanks r best > 0 then (r, [index])
        else if compareRanks r best = 0 then (best, winners @ [index])
        else (best, winners)"
  have run: "tallyRanks rs (index + 1) ?acc = (best', winners')"
    using Cons.prems(1) by simp
  have idx: "0 \<le> index + 1" "index \<noteq> -1" using Cons.prems(3) by simp_all
  have hero: "heroRank \<in> set (seen @ [r])" using Cons.prems(2) by simp
  consider (gt) "compareRanks r best > 0" | (eq) "compareRanks r best = 0"
    | (lt) "compareRanks r best < 0" by linarith
  then have "best' \<in> set ((seen @ [r]) @ rs)
       \<and> (\<forall>x \<in> set ((seen @ [r]) @ rs). compareRanks x best' \<le> 0)
       \<and> length winners' = length (filter (\<lambda>x. compareRanks x best' = 0) ((seen @ [r]) @ rs))
       \<and> (-1 \<in> set winners') = (compareRanks heroRank best' = 0)"
  proof cases
    case gt
    have below: "compareRanks x r < 0" if "x \<in> set seen" for x
      using gt Cons.prems(5) that by (intro compareRanks_below_greater [of r best]) auto
    have 1: "tallyRanks rs (index + 1) (r, [index]) = (best', winners')" using run gt by simp
    have 2: "\<forall>x \<in> set (seen @ [r]). compareRanks x r \<le> 0"
      using below by (auto simp: compareRanks_refl less_imp_le)
    have "compareRanks x r \<noteq> 0" if "x \<in> set seen" for x
      using below [OF that] by simp
    then have "filter (\<lambda>x. compareRanks x r = 0) seen = []"
      unfolding filter_empty_conv by blast
    then have 3: "length [index] = length (filter (\<lambda>x. compareRanks x r = 0) (seen @ [r]))"
      by (simp add: compareRanks_refl)
    have 4: "(-1 \<in> set [index]) = (compareRanks heroRank r = 0)"
      using below [OF Cons.prems(2)] idx(2) by simp
    show ?thesis by (rule Cons.IH [OF 1 hero idx(1) _ 2 3 4]) simp
  next
    case eq
    have 1: "tallyRanks rs (index + 1) (best, winners @ [index]) = (best', winners')"
      using run eq by simp
    have 2: "\<forall>x \<in> set (seen @ [r]). compareRanks x best \<le> 0"
      using Cons.prems(5) eq by simp
    have 3: "length (winners @ [index])
        = length (filter (\<lambda>x. compareRanks x best = 0) (seen @ [r]))"
      using Cons.prems(6) eq by simp
    have 4: "(-1 \<in> set (winners @ [index])) = (compareRanks heroRank best = 0)"
      using Cons.prems(7) idx(2) by simp
    show ?thesis by (rule Cons.IH [OF 1 hero idx(1) _ 2 3 4]) (use Cons.prems(4) in simp)
  next
    case lt
    have 1: "tallyRanks rs (index + 1) (best, winners) = (best', winners')"
      using run lt by simp
    have 2: "\<forall>x \<in> set (seen @ [r]). compareRanks x best \<le> 0"
      using Cons.prems(5) lt by simp
    have 3: "length winners = length (filter (\<lambda>x. compareRanks x best = 0) (seen @ [r]))"
      using Cons.prems(6) lt by simp
    show ?thesis
      by (rule Cons.IH [OF 1 hero idx(1) _ 2 3 Cons.prems(7)]) (use Cons.prems(4) in simp)
  qed
  then show ?case by simp
qed

lemma tallyRanks_credit:
  assumes "tallyRanks oppRanks 0 (heroRank, [-1]) = (best, winners)"
  shows "(if -1 \<in> set winners then 1 / real (length winners) else 0)
           = spec_credit heroRank oppRanks"
proof -
  let ?hands = "heroRank # oppRanks"
  have inv: "best \<in> set ?hands" "\<forall>r \<in> set ?hands. compareRanks r best \<le> 0"
    "length winners = length (filter (\<lambda>r. compareRanks r best = 0) ?hands)"
    "(-1 \<in> set winners) = (compareRanks heroRank best = 0)"
    using tallyRanks_invariant [OF assms, of heroRank "[heroRank]"]
    by (simp_all add: compareRanks_refl)
  have maximal: "(\<forall>r' \<in> set ?hands. compareRanks r' r \<le> 0) = (compareRanks r best = 0)"
    if "r \<in> set ?hands" for r
  proof
    assume "\<forall>r' \<in> set ?hands. compareRanks r' r \<le> 0"
    then have "compareRanks best r \<le> 0" using inv(1) by blast
    moreover have "compareRanks r best \<le> 0" using inv(2) that by blast
    ultimately show "compareRanks r best = 0" using compareRanks_neg [of r best] by simp
  next
    assume e: "compareRanks r best = 0"
    show "\<forall>r' \<in> set ?hands. compareRanks r' r \<le> 0"
    proof
      fix r' assume "r' \<in> set ?hands"
      then have "compareRanks r' best \<le> 0" using inv(2) by blast
      moreover have "compareRanks best r \<le> 0" using e compareRanks_neg [of best r] by simp
      ultimately show "compareRanks r' r \<le> 0" by (rule compareRanks_le_trans)
    qed
  qed
  have f: "filter (\<lambda>r. \<forall>r' \<in> set ?hands. compareRanks r' r \<le> 0) ?hands
      = filter (\<lambda>r. compareRanks r best = 0) ?hands"
    by (rule filter_cong [OF refl]) (use maximal in blast)
  have h: "(\<forall>r' \<in> set ?hands. compareRanks r' heroRank \<le> 0) = (compareRanks heroRank best = 0)"
    by (rule maximal) simp
  show ?thesis
    unfolding spec_credit_def Let_def f h using inv(3,4) by simp
qed

section \<open>Simulator: the deal\<close>

lemma evaluate7_max:
  assumes "length cs = 7" and "distinct cs"
  shows "\<exists>best. evaluate7 (map Some cs) = Some best
         \<and> (\<exists>h. fiveSubset h cs \<and> evaluate5 (map Some h) = Some best)
         \<and> (\<forall>h. fiveSubset h cs \<longrightarrow>
               (\<exists>r. evaluate5 (map Some h) = Some r \<and> compareRanks best r \<ge> 0))"
proof -
  have "map (pick (map Some cs)) COMBOS_7_5 = map (map Some) (sub5 cs)" "sub5 cs \<noteq> []"
    using pick_getCombos [of cs] assms(1) by (simp_all add: getCombos_7_value)
  from selector_max [OF this assms(2)] show ?thesis by (simp add: evaluate7_def)
qed

lemma createDeck_props:
  assumes "distinct ex"
  shows "distinct (createDeck ex)" "set (createDeck ex) = UNIV - set ex"
    "length (createDeck ex) = 52 - length ex"
  using assms length_createDeck [OF assms]
  by (auto simp: createDeck_filter distinct_fullDeck set_fullDeck)

lemma deal_ok:
  assumes "validRandom rnd" and "distinct (hero @ board @ concat knownOpponents)"
    and "length board \<le> 5"
    and "2 * u + (5 - length board) + length (hero @ board @ concat knownOpponents) \<le> 52"
  shows "\<exists>hs new. deal rnd hero board knownOpponents u k
             = (map (map Some) hs, map Some (board @ new), k + (2 * u + (5 - length board)))
           \<and> length hs = u \<and> (\<forall>h \<in> set hs. length h = 2) \<and> length (board @ new) = 5
           \<and> distinct (hero @ board @ concat knownOpponents @ concat hs @ new)"
proof -
  let ?ex = "hero @ board @ concat knownOpponents"
  let ?deck = "createDeck ?ex"
  note deck = createDeck_props [OF assms(2)]
  have "2 * u \<le> length ?deck" using deck(3) assms(4) by simp
  from drawOpponents_ok [OF assms(1) deck(1) this, of k] obtain hs d1 where 1:
    "drawOpponents rnd u (?deck, k) = (map (map Some) hs, (d1, k + 2 * u))"
    "length hs = u" "\<forall>h \<in> set hs. length h = 2"
    "distinct (concat hs)" "set (concat hs) \<subseteq> set ?deck"
    "distinct d1" "set d1 = set ?deck - set (concat hs)" "length d1 = length ?deck - 2 * u"
    by blast
  have "length (map Some board) + (5 - length board) = 5" "5 - length board \<le> length d1"
    using assms(3,4) 1(8) deck(3) by simp_all
  from fillBoard_ok [OF assms(1) 1(6) this, of "k + 2 * u"] obtain new d2 where 2:
    "fillBoard rnd (map Some board) (d1, k + 2 * u)
       = (map Some board @ map Some new, (d2, k + 2 * u + (5 - length board)))"
    "length new = 5 - length board" "distinct new" "set new \<subseteq> set d1"
    by blast
  have a: "deal rnd hero board knownOpponents u k
      = (map (map Some) hs, map Some (board @ new), k + (2 * u + (5 - length board)))"
    using 1(1) 2(1) by (simp add: deal_def Let_def add.assoc)
  have b: "length (board @ new) = 5" using 2(2) assms(3) by simp
  have "set (concat hs) \<inter> set ?ex = {}" using 1(5) deck(2) by auto
  moreover have "set new \<inter> set ?ex = {}" "set new \<inter> set (concat hs) = {}"
    using 2(4) 1(7) deck(2) by auto
  ultimately have c: "distinct (hero @ board @ concat knownOpponents @ concat hs @ new)"
    using assms(2) 1(4) 2(3) by auto
  show ?thesis using a b c 1(2,3) by blast
qed

section \<open>Simulator: one trial and the running sum\<close>

lemma showdown_credit:
  assumes "\<exists>r. evaluate7 (map Some hero @ fullBoard) = Some r"
    and "\<forall>hand \<in> set opps. \<exists>r. evaluate7 (hand @ fullBoard) = Some r"
    and "opps = map (map Some) knownOpponents @ unknownOpponents"
  shows "showdown hero knownOpponents unknownOpponents fullBoard
           = Some (spec_credit (the (evaluate7 (map Some hero @ fullBoard)))
                     (map (\<lambda>hand. the (evaluate7 (hand @ fullBoard))) opps))"
proof -
  obtain heroRank where h: "evaluate7 (map Some hero @ fullBoard) = Some heroRank"
    using assms(1) by blast
  let ?rs = "map (\<lambda>hand. the (evaluate7 (hand @ fullBoard))) opps"
  have "list_all2 (\<lambda>hand r. evaluate7 (hand @ fullBoard) = Some r) opps ?rs"
    unfolding list_all2_map2 by (rule list_all2_same [THEN iffD2]) (use assms(2) in auto)
  then have t: "tally fullBoard opps 0 (heroRank, [-1]) = Some (tallyRanks ?rs 0 (heroRank, [-1]))"
    by (rule tally_tallyRanks)
  obtain best winners where w: "tallyRanks ?rs 0 (heroRank, [-1]) = (best, winners)"
    by (cases "tallyRanks ?rs 0 (heroRank, [-1])")
  show ?thesis
    unfolding showdown_def assms(3) [symmetric] h
    using t w tallyRanks_credit [OF w] by simp
qed

lemma trials_sum:
  assumes "\<And>k. trial rnd hero board knownOpponents u k = Some (credit k, k + d)"
  shows "trials rnd hero board knownOpponents u n acc k
           = Some (acc + (\<Sum>i<n. credit (k + i * d)))"
proof (induction n arbitrary: acc k)
  case 0
  then show ?case by simp
next
  case (Suc n)
  have "(\<Sum>i<Suc n. credit (k + i * d)) = credit k + (\<Sum>i<n. credit (k + d + i * d))"
    by (subst sum.lessThan_Suc_shift) (simp add: ac_simps)
  then show ?case using Suc.IH [of "acc + credit k" "k + d"] assms [of k]
    by (simp add: add.assoc)
qed

lemma length_concat_pairs:
  assumes "\<forall>h \<in> set hs. length h = 2"
  shows "length (concat hs) = 2 * length hs"
  using assms by (induction hs) simp_all

lemma distinct_concat_member:
  assumes "distinct (concat xs)" and "h \<in> set xs"
  shows "distinct h"
  using assms by (induction xs) auto

lemma length_cards_le:
  assumes "distinct (cs :: Card list)"
  shows "length cs \<le> 52"
proof -
  have "finite (UNIV :: Card set)" using set_fullDeck by (metis List.finite_set)
  then have "card (set cs) \<le> card (UNIV :: Card set)" by (intro card_mono) simp_all
  then show ?thesis using assms by (simp add: distinct_card card_Card_UNIV)
qed

lemma trial_enough_cards:
  assumes "validRandom rnd" and "length hero = 2" and "length board \<le> 5"
    and "\<forall>hand \<in> set knownOpponents. length hand = 2"
    and "distinct (hero @ board @ concat knownOpponents)"
    and "2 * u + (5 - length board) + length (hero @ board @ concat knownOpponents) \<le> 52"
    and "d = 2 * u + (5 - length board)"
  shows "\<exists>hs new. deal rnd hero board knownOpponents u k
             = (map (map Some) hs, map Some (board @ new), k + d)
           \<and> length hs = u \<and> (\<forall>h \<in> set hs. length h = 2) \<and> length (board @ new) = 5
           \<and> distinct (hero @ board @ concat knownOpponents @ concat hs @ new)
           \<and> (\<exists>r. evaluate7 (map Some (hero @ board @ new)) = Some r)
           \<and> (\<forall>hand \<in> set (knownOpponents @ hs).
                 \<exists>r. evaluate7 (map Some (hand @ board @ new)) = Some r)
           \<and> trial rnd hero board knownOpponents u k
               = Some (trialCredit rnd hero board knownOpponents u k, k + d)"
proof -
  note v = assms(2,4)
  from deal_ok [OF assms(1,5,3,6), of k] obtain hs new where dl:
    "deal rnd hero board knownOpponents u k
       = (map (map Some) hs, map Some (board @ new), k + d)"
    "length hs = u" "\<forall>h \<in> set hs. length h = 2" "length (board @ new) = 5"
    "distinct (hero @ board @ concat knownOpponents @ concat hs @ new)"
    unfolding assms(7) by blast
  let ?fb = "board @ new"
  have seven: "\<exists>r. evaluate7 (map Some (hand @ ?fb)) = Some r"
    if "length hand = 2" "distinct (hand @ ?fb)" for hand
    using evaluate7_max [of "hand @ ?fb"] that dl(4) by simp blast
  have hero7: "\<exists>r. evaluate7 (map Some (hero @ ?fb)) = Some r"
    using dl(5) v by (intro seven) auto
  have opp7: "\<exists>r. evaluate7 (map Some (hand @ ?fb)) = Some r"
    if "hand \<in> set (knownOpponents @ hs)" for hand
  proof (rule seven)
    show "length hand = 2" using that v dl(3) by auto
    have sub: "set hand \<subseteq> set (concat knownOpponents @ concat hs)" using that by auto
    have "distinct (concat (knownOpponents @ hs))" using dl(5) by auto
    then have dh: "distinct hand" using that by (rule distinct_concat_member)
    have "set (concat knownOpponents @ concat hs) \<inter> set ?fb = {}" using dl(5) by auto
    then have disj: "set hand \<inter> set ?fb = {}" using sub by blast
    have dfb: "distinct ?fb" using dl(5) by auto
    show "distinct (hand @ ?fb)" using dh dfb disj by (metis distinct_append)
  qed
  let ?opps = "map (map Some) knownOpponents @ map (map Some) hs"
  have "\<forall>hand \<in> set ?opps. \<exists>r. evaluate7 (hand @ map Some ?fb) = Some r"
    using opp7 by auto
  moreover have "\<exists>r. evaluate7 (map Some hero @ map Some ?fb) = Some r"
    using hero7 by simp
  ultimately have sd: "showdown hero knownOpponents (map (map Some) hs) (map Some ?fb)
      = Some (spec_credit (the (evaluate7 (map Some hero @ map Some ?fb)))
                (map (\<lambda>hand. the (evaluate7 (hand @ map Some ?fb))) ?opps))"
    by (intro showdown_credit) simp_all
  have tr: "trial rnd hero board knownOpponents u k
      = Some (trialCredit rnd hero board knownOpponents u k, k + d)"
    unfolding trial_def trialCredit_def dl(1) using sd by simp
  show ?thesis
    using dl hero7 opp7 tr by blast
qed

section \<open>Simulator: the arithmetic of doubles\<close>

lemma tallyRanks_winners:
  assumes "tallyRanks oppRanks 0 (heroRank, [-1]) = (best, winners)"
  shows "(-1 \<in> set winners) = (\<forall>r' \<in> set (heroRank # oppRanks). compareRanks r' heroRank \<le> 0)"
    and "length winners
           = length (filter (\<lambda>r. \<forall>r' \<in> set (heroRank # oppRanks). compareRanks r' r \<le> 0)
                       (heroRank # oppRanks))"
proof -
  let ?hands = "heroRank # oppRanks"
  have inv: "best \<in> set ?hands" "\<forall>r \<in> set ?hands. compareRanks r best \<le> 0"
    "length winners = length (filter (\<lambda>r. compareRanks r best = 0) ?hands)"
    "(-1 \<in> set winners) = (compareRanks heroRank best = 0)"
    using tallyRanks_invariant [OF assms, of heroRank "[heroRank]"]
    by (simp_all add: compareRanks_refl)
  have maximal: "(\<forall>r' \<in> set ?hands. compareRanks r' r \<le> 0) = (compareRanks r best = 0)"
    if "r \<in> set ?hands" for r
  proof
    assume "\<forall>r' \<in> set ?hands. compareRanks r' r \<le> 0"
    then have "compareRanks best r \<le> 0" using inv(1) by blast
    moreover have "compareRanks r best \<le> 0" using inv(2) that by blast
    ultimately show "compareRanks r best = 0" using compareRanks_neg [of r best] by simp
  next
    assume e: "compareRanks r best = 0"
    show "\<forall>r' \<in> set ?hands. compareRanks r' r \<le> 0"
    proof
      fix r' assume "r' \<in> set ?hands"
      then have "compareRanks r' best \<le> 0" using inv(2) by blast
      moreover have "compareRanks best r \<le> 0" using e compareRanks_neg [of best r] by simp
      ultimately show "compareRanks r' r \<le> 0" by (rule compareRanks_le_trans)
    qed
  qed
  have f: "filter (\<lambda>r. \<forall>r' \<in> set ?hands. compareRanks r' r \<le> 0) ?hands
      = filter (\<lambda>r. compareRanks r best = 0) ?hands"
    by (rule filter_cong [OF refl]) (use maximal in blast)
  have h: "(\<forall>r' \<in> set ?hands. compareRanks r' heroRank \<le> 0) = (compareRanks heroRank best = 0)"
    by (rule maximal) simp
  show "(-1 \<in> set winners) = (\<forall>r' \<in> set ?hands. compareRanks r' heroRank \<le> 0)"
    unfolding h by (rule inv(4))
  show "length winners
      = length (filter (\<lambda>r. \<forall>r' \<in> set ?hands. compareRanks r' r \<le> 0) ?hands)"
    unfolding f by (rule inv(3))
qed

lemma showdownFl_credit:
  assumes "\<exists>r. evaluate7 (map Some hero @ fullBoard) = Some r"
    and "\<forall>hand \<in> set opps. \<exists>r. evaluate7 (hand @ fullBoard) = Some r"
    and "opps = map (map Some) knownOpponents @ unknownOpponents"
  shows "showdownFl fl hero knownOpponents unknownOpponents fullBoard acc
           = Some (addCredit fl acc
                     (spec_creditFl fl (the (evaluate7 (map Some hero @ fullBoard)))
                        (map (\<lambda>hand. the (evaluate7 (hand @ fullBoard))) opps)))"
proof -
  obtain heroRank where h: "evaluate7 (map Some hero @ fullBoard) = Some heroRank"
    using assms(1) by blast
  let ?rs = "map (\<lambda>hand. the (evaluate7 (hand @ fullBoard))) opps"
  have "list_all2 (\<lambda>hand r. evaluate7 (hand @ fullBoard) = Some r) opps ?rs"
    unfolding list_all2_map2 by (rule list_all2_same [THEN iffD2]) (use assms(2) in auto)
  then have t: "tally fullBoard opps 0 (heroRank, [-1]) = Some (tallyRanks ?rs 0 (heroRank, [-1]))"
    by (rule tally_tallyRanks)
  obtain best winners where w: "tallyRanks ?rs 0 (heroRank, [-1]) = (best, winners)"
    by (cases "tallyRanks ?rs 0 (heroRank, [-1])")
  note tw = tallyRanks_winners [OF w]
  have "(if -1 \<in> set winners then fl (acc + fl (1 / real (length winners))) else acc)
      = addCredit fl acc (spec_creditFl fl heroRank ?rs)"
    unfolding spec_creditFl_def Let_def addCredit_def tw(1) tw(2) [symmetric] by simp
  then show ?thesis
    unfolding showdownFl_def assms(3) [symmetric] h using t w by simp
qed

lemma trialsFl_fold:
  assumes "\<And>k acc. trialFl fl rnd hero board knownOpponents u acc k
                     = Some (addCredit fl acc (credit k), k + d)"
  shows "trialsFl fl rnd hero board knownOpponents u n acc k
           = Some (foldl (addCredit fl) acc (map (\<lambda>i. credit (k + i * d)) [0..<n]))"
proof (induction n arbitrary: acc k)
  case 0
  then show ?case by simp
next
  case (Suc n)
  have "map (\<lambda>i. credit (k + i * d)) [0..<Suc n]
      = credit k # map (\<lambda>i. credit (k + d + i * d)) [0..<n]"
    unfolding upt_conv_Cons [OF zero_less_Suc] map_Suc_upt [symmetric]
    by (simp add: ac_simps)
  then show ?case
    using Suc.IH [of "addCredit fl acc (credit k)" "k + d"] assms [of acc k] by simp
qed

lemma cards_suffice:
  assumes "length hero = 2" and "length board \<le> 5" and "numPlayers \<le> 9"
    and "\<forall>hand \<in> set knownOpponents. length hand = 2"
    and "length knownOpponents \<le> 22"
    and "u = nat (max (numPlayers - 1 - int (length knownOpponents)) 0)"
  shows "2 * u + (5 - length board) + length (hero @ board @ concat knownOpponents) \<le> 52"
proof -
  have lk: "length (concat knownOpponents) = 2 * length knownOpponents"
    using assms(4) by (rule length_concat_pairs)
  have "u + length knownOpponents \<le> 22" using assms(3,5,6) by linarith
  then show ?thesis using assms(1,2) lk by simp
qed

lemma trialFl_enough_cards:
  assumes "validRandom rnd" and "length hero = 2" and "length board \<le> 5"
    and "\<forall>hand \<in> set knownOpponents. length hand = 2"
    and "distinct (hero @ board @ concat knownOpponents)"
    and "2 * u + (5 - length board) + length (hero @ board @ concat knownOpponents) \<le> 52"
    and "d = 2 * u + (5 - length board)"
  shows "trialFl fl rnd hero board knownOpponents u acc k
           = Some (addCredit fl acc (trialCreditFl fl rnd hero board knownOpponents u k), k + d)"
proof -
  from trial_enough_cards [OF assms, of k] obtain hs new where dl:
    "deal rnd hero board knownOpponents u k
       = (map (map Some) hs, map Some (board @ new), k + d)"
    "\<exists>r. evaluate7 (map Some (hero @ board @ new)) = Some r"
    "\<forall>hand \<in> set (knownOpponents @ hs). \<exists>r. evaluate7 (map Some (hand @ board @ new)) = Some r"
    by blast
  let ?fb = "board @ new"
  let ?opps = "map (map Some) knownOpponents @ map (map Some) hs"
  have "\<forall>hand \<in> set ?opps. \<exists>r. evaluate7 (hand @ map Some ?fb) = Some r"
    using dl(3) by auto
  moreover have "\<exists>r. evaluate7 (map Some hero @ map Some ?fb) = Some r"
    using dl(2) by simp
  ultimately have sd: "showdownFl fl hero knownOpponents (map (map Some) hs) (map Some ?fb) acc
      = Some (addCredit fl acc
                (spec_creditFl fl (the (evaluate7 (map Some hero @ map Some ?fb)))
                   (map (\<lambda>hand. the (evaluate7 (hand @ map Some ?fb))) ?opps)))"
    by (intro showdownFl_credit) simp_all
  show ?thesis
    unfolding trialFl_def trialCreditFl_def dl(1) using sd by simp
qed

lemma trialsFl_exact:
  "trialsFl (\<lambda>x. x) rnd hero board knownOpponents u n acc k
     = trials rnd hero board knownOpponents u n acc k"
proof (induction n arbitrary: acc k)
  case 0
  then show ?case by simp
next
  case (Suc n)
  obtain unk fb k' where dl: "deal rnd hero board knownOpponents u k = (unk, fb, k')"
    by (cases "deal rnd hero board knownOpponents u k")
  have sd: "showdownFl (\<lambda>x. x) hero knownOpponents unk fb acc
      = map_option (\<lambda>credit. acc + credit) (showdown hero knownOpponents unk fb)"
    unfolding showdownFl_def showdown_def
    by (cases "evaluate7 (map Some hero @ fb)")
       (auto split: option.splits prod.splits Option.bind_splits)
  show ?case
    by (cases "showdown hero knownOpponents unk fb")
       (simp_all add: trialFl_def trial_def dl sd Suc.IH)
qed

lemma calculateWinRate_exact:
  "calculateWinRateFl (\<lambda>x. x) rnd hero board numPlayers knownOpponents iterationsOpt
     = calculateWinRate rnd hero board numPlayers knownOpponents iterationsOpt"
  by (simp add: calculateWinRateFl_def calculateWinRate_def trialsFl_exact)

text \<open>
  When the deck runs out: with 23 known opponent hands or more, fewer cards are left
  than the board needs, a board card is \<open>undefined\<close>, and no result is returned.
\<close>

lemma fillBoard_length:
  "length (fst (fillBoard rnd fullBoard st)) = max 5 (length fullBoard)"
proof (induction rnd fullBoard st rule: fillBoard.induct)
  case (1 rnd fullBoard st)
  show ?case
  proof (cases "length fullBoard < 5")
    case True
    obtain c st1 where d: "drawRandom rnd st = (c, st1)" by (cases "drawRandom rnd st")
    have "length (fst (fillBoard rnd (fullBoard @ [c]) st1)) = max 5 (length (fullBoard @ [c]))"
      using "1.IH" [OF True d [symmetric] refl] .
    then show ?thesis using True d by (subst fillBoard.simps) simp
  next
    case False
    then show ?thesis by (subst fillBoard.simps) simp
  qed
qed

lemma fillBoard_exhausted:
  assumes "length fullBoard + length (fst st) < 5 \<or> None \<in> set fullBoard"
  shows "None \<in> set (fst (fillBoard rnd fullBoard st))"
  using assms
proof (induction rnd fullBoard st rule: fillBoard.induct)
  case (1 rnd fullBoard st)
  show ?case
  proof (cases "length fullBoard < 5")
    case True
    obtain deck k where st: "st = (deck, k)" by (cases st)
    define idx where "idx = nat \<lfloor>rnd k * real (length deck)\<rfloor>"
    define st1 where "st1 = (take idx deck @ drop (idx + 1) deck, k + 1)"
    have d: "drawRandom rnd st = (js_nth deck idx, st1)"
      unfolding st drawRandom_def idx_def st1_def by (simp add: Let_def)
    have "length (fullBoard @ [js_nth deck idx]) + length (fst st1) < 5
        \<or> None \<in> set (fullBoard @ [js_nth deck idx])"
    proof (cases "idx < length deck")
      case True
      then have "length (fst st1) = length deck - 1" unfolding st1_def by simp
      then show ?thesis using "1.prems" True unfolding st by auto
    next
      case False
      then show ?thesis by (simp add: js_nth_def)
    qed
    from "1.IH" [OF True d [symmetric] refl this]
    show ?thesis using True d by (subst fillBoard.simps) simp
  next
    case False
    then show ?thesis using "1.prems" by (subst fillBoard.simps) simp
  qed
qed

lemma evaluate7_undefined_board:
  assumes "length hero = 2" and "length fullBoard = 5" and "None \<in> set fullBoard"
  shows "evaluate7 (map Some hero @ fullBoard) = None"
proof (cases "evaluate5 (pick (map Some hero @ fullBoard) [0, 1, 2, 3, 4])")
  case None
  then show ?thesis unfolding evaluate7_def COMBOS_7_5_first by simp
next
  case (Some first)
  obtain h1 h2 where h: "hero = [h1, h2]"
    using assms(1) by (auto simp: length_Suc_conv eval_nat_numeral)
  obtain a b c d e where fb: "fullBoard = [a, b, c, d, e]" using assms(2) by (rule length5E)
  have "pick (map Some hero @ fullBoard) [2, 3, 4, 5, 6] = fullBoard"
    unfolding h fb pick_def js_nth_def by (simp split: option.splits)
  then have "evaluate5 (pick (map Some hero @ fullBoard) [2, 3, 4, 5, 6]) = None"
    using assms(3) by (simp add: evaluate5_undefined)
  with COMBOS_7_5_last have "bestLoop (map Some hero @ fullBoard) (drop 1 COMBOS_7_5) first = None"
    by (rule bestLoop_None)
  with Some show ?thesis unfolding evaluate7_def COMBOS_7_5_first by simp
qed

lemma too_many_known_hands:
  assumes "length hero = 2" and "numPlayers \<le> 9"
    and "\<forall>hand \<in> set knownOpponents. length hand = 2"
    and "distinct (hero @ board @ concat knownOpponents)"
    and "23 \<le> length knownOpponents" and "1 \<le> n"
  shows "calculateWinRateFl fl rnd hero board numPlayers knownOpponents (Some n) = None"
proof -
  let ?ex = "hero @ board @ concat knownOpponents"
  have u: "nat (max (numPlayers - 1 - int (length knownOpponents)) 0) = 0"
    using assms(2,5) by simp
  have lk: "length (concat knownOpponents) = 2 * length knownOpponents"
    using assms(3) by (rule length_concat_pairs)
  have le: "length ?ex \<le> 52" using assms(4) by (rule length_cards_le)
  then have lb: "length board \<le> 4" using assms(1,5) lk by simp
  have ld: "length (createDeck ?ex) = 52 - length ?ex"
    using createDeck_props(3) [OF assms(4)] .
  have short: "length (map Some board) + length (fst (createDeck ?ex, k)) < 5" for k :: nat
    using ld le assms(1,5) lk by simp
  have tr: "trialFl fl rnd hero board knownOpponents 0 acc k = None" for acc k
  proof -
    obtain fb st2 where f: "fillBoard rnd (map Some board) (createDeck ?ex, k) = (fb, st2)"
      by (cases "fillBoard rnd (map Some board) (createDeck ?ex, k)")
    have "None \<in> set fb"
      using fillBoard_exhausted [of "map Some board" "(createDeck ?ex, k)" rnd] short [of k] f
      by simp
    moreover have "length fb = 5"
      using fillBoard_length [of rnd "map Some board" "(createDeck ?ex, k)"] f lb by simp
    ultimately have "evaluate7 (map Some hero @ fb) = None"
      using assms(1) by (intro evaluate7_undefined_board)
    moreover have "deal rnd hero board knownOpponents 0 k = ([], fb, snd st2)"
      by (simp add: deal_def Let_def f del: fillBoard.simps)
    ultimately show ?thesis
      by (simp add: trialFl_def showdownFl_def)
  qed
  obtain m where n: "n = Suc m" using assms(6) by (cases n) simp_all
  show ?thesis
    unfolding calculateWinRateFl_def Let_def u n using tr [of 0 0] by simp
qed

text \<open>
  C2, as the code has it. For every input with a hero of 2 cards, a board of at most 5
  cards, 2 to 9 players, known opponent hands of 2 cards each, no card repeated, at most
  22 known opponent hands and \<open>iterations\<close> of at least 1, and for every source of random
  values, \<open>calculateWinRate\<close> runs \<open>iterations\<close> trials. Trial \<open>i\<close> starts after
  \<open>i * d\<close> random values, where \<open>d\<close> is the number of cards a trial draws: it draws
  \<open>max (numPlayers - 1 - |knownOpponents|) 0\<close> unknown hands of 2 cards and completes the
  board to 5 cards, all drawn cards distinct and none of them among the known cards;
  every 7-card hand has a descriptor; the credit of the trial is the double
  \<open>1 / |winner set|\<close> when the hero is among the maximal hands, and nothing is added
  otherwise. The equity returned is the running sum of the credits, added in the order
  of the trials in the arithmetic of doubles, divided by \<open>iterations\<close>; the iteration
  count returned is \<open>iterations\<close>.
\<close>

theorem calculateWinRateFl_trials:
  assumes "validRandom rnd"
    and "length hero = 2" and "length board \<le> 5" and "2 \<le> numPlayers" and "numPlayers \<le> 9"
    and "\<forall>hand \<in> set knownOpponents. length hand = 2"
    and "distinct (hero @ board @ concat knownOpponents)"
    and "length knownOpponents \<le> 22"
    and "1 \<le> n"
    and "u = nat (max (numPlayers - 1 - int (length knownOpponents)) 0)"
    and "d = 2 * u + (5 - length board)"
  shows "calculateWinRateFl fl rnd hero board numPlayers knownOpponents (Some n)
           = Some \<lparr>equity = Num (fl (foldl (addCredit fl) 0
                       (map (\<lambda>i. trialCreditFl fl rnd hero board knownOpponents u (i * d)) [0..<n])
                     / real n)),
                   iterations = n\<rparr>
       \<and> (\<forall>i<n. \<exists>hs new.
             deal rnd hero board knownOpponents u (i * d)
               = (map (map Some) hs, map Some (board @ new), (i + 1) * d)
             \<and> length hs = u \<and> (\<forall>h \<in> set hs. length h = 2) \<and> length (board @ new) = 5
             \<and> distinct (hero @ board @ concat knownOpponents @ concat hs @ new)
             \<and> (\<exists>r. evaluate7 (map Some (hero @ board @ new)) = Some r)
             \<and> (\<forall>hand \<in> set (knownOpponents @ hs).
                   \<exists>r. evaluate7 (map Some (hand @ board @ new)) = Some r)
             \<and> (\<forall>acc. trialFl fl rnd hero board knownOpponents u acc (i * d)
                   = Some (addCredit fl acc
                             (trialCreditFl fl rnd hero board knownOpponents u (i * d)),
                           (i + 1) * d)))"
proof -
  note cards = cards_suffice [OF assms(2,3,5,6,8,10)]
  note t = trial_enough_cards [OF assms(1,2,3,6,7) cards assms(11)]
  have tr: "trialFl fl rnd hero board knownOpponents u acc k
      = Some (addCredit fl acc (trialCreditFl fl rnd hero board knownOpponents u k), k + d)"
    for acc k
    by (rule trialFl_enough_cards [OF assms(1,2,3,6,7) cards assms(11)])
  have "trialsFl fl rnd hero board knownOpponents u n 0 0
      = Some (foldl (addCredit fl) 0
                (map (\<lambda>i. trialCreditFl fl rnd hero board knownOpponents u (0 + i * d)) [0..<n]))"
    by (rule trialsFl_fold [OF tr])
  then have 1: "calculateWinRateFl fl rnd hero board numPlayers knownOpponents (Some n)
           = Some \<lparr>equity = Num (fl (foldl (addCredit fl) 0
                       (map (\<lambda>i. trialCreditFl fl rnd hero board knownOpponents u (i * d)) [0..<n])
                     / real n)),
                   iterations = n\<rparr>"
    using assms(9) unfolding calculateWinRateFl_def Let_def assms(10) [symmetric] by simp
  have 2: "\<exists>hs new.
             deal rnd hero board knownOpponents u (i * d)
               = (map (map Some) hs, map Some (board @ new), (i + 1) * d)
             \<and> length hs = u \<and> (\<forall>h \<in> set hs. length h = 2) \<and> length (board @ new) = 5
             \<and> distinct (hero @ board @ concat knownOpponents @ concat hs @ new)
             \<and> (\<exists>r. evaluate7 (map Some (hero @ board @ new)) = Some r)
             \<and> (\<forall>hand \<in> set (knownOpponents @ hs).
                   \<exists>r. evaluate7 (map Some (hand @ board @ new)) = Some r)
             \<and> (\<forall>acc. trialFl fl rnd hero board knownOpponents u acc (i * d)
                   = Some (addCredit fl acc
                             (trialCreditFl fl rnd hero board knownOpponents u (i * d)),
                           (i + 1) * d))" for i
  proof -
    have e: "(i + 1) * d = i * d + d" by simp
    from t [of "i * d"] obtain hs new where dl:
      "deal rnd hero board knownOpponents u (i * d)
         = (map (map Some) hs, map Some (board @ new), i * d + d)"
      "length hs = u" "\<forall>h \<in> set hs. length h = 2" "length (board @ new) = 5"
      "distinct (hero @ board @ concat knownOpponents @ concat hs @ new)"
      "\<exists>r. evaluate7 (map Some (hero @ board @ new)) = Some r"
      "\<forall>hand \<in> set (knownOpponents @ hs). \<exists>r. evaluate7 (map Some (hand @ board @ new)) = Some r"
      by blast
    show ?thesis unfolding e using dl tr [of _ "i * d"] by blast
  qed
  show ?thesis using 1 2 by blast
qed


text \<open>
  The claim as worded sets no bound on the number of known opponents. With 23 known
  hands and an empty board the deck holds 4 cards: the fifth board card is \<open>undefined\<close>,
  and evaluating the hero's hand throws in the first trial, so that no result is returned.
\<close>

theorem known_hands_exhaust_deck_counterexample:
  "length [\<lparr>rank = R2, suit = Su_s\<rparr>, \<lparr>rank = R3, suit = Su_s\<rparr>] = 2
   \<and> length exhaustingOpponents = 23
   \<and> list_all (\<lambda>hand. length hand = 2) exhaustingOpponents
   \<and> distinct ([\<lparr>rank = R2, suit = Su_s\<rparr>, \<lparr>rank = R3, suit = Su_s\<rparr>] @ []
        @ concat exhaustingOpponents)
   \<and> validRandom (\<lambda>k. 0)
   \<and> deal (\<lambda>k. 0) [\<lparr>rank = R2, suit = Su_s\<rparr>, \<lparr>rank = R3, suit = Su_s\<rparr>] []
        exhaustingOpponents 0 0
       = ([], [Some \<lparr>rank = RJ, suit = Su_c\<rparr>, Some \<lparr>rank = RQ, suit = Su_c\<rparr>,
               Some \<lparr>rank = RK, suit = Su_c\<rparr>, Some \<lparr>rank = RA, suit = Su_c\<rparr>, None], 5)
   \<and> calculateWinRate (\<lambda>k. 0) [\<lparr>rank = R2, suit = Su_s\<rparr>, \<lparr>rank = R3, suit = Su_s\<rparr>] [] 2
        exhaustingOpponents (Some 1) = None
   \<and> (\<forall>fl. calculateWinRateFl fl (\<lambda>k. 0)
          [\<lparr>rank = R2, suit = Su_s\<rparr>, \<lparr>rank = R3, suit = Su_s\<rparr>] [] 2
          exhaustingOpponents (Some 1) = None)"
proof -
  let ?hero = "[\<lparr>rank = R2, suit = Su_s\<rparr>, \<lparr>rank = R3, suit = Su_s\<rparr>]"
  let ?fb = "[Some \<lparr>rank = RJ, suit = Su_c\<rparr>, Some \<lparr>rank = RQ, suit = Su_c\<rparr>,
               Some \<lparr>rank = RK, suit = Su_c\<rparr>, Some \<lparr>rank = RA, suit = Su_c\<rparr>, None]"
  have l: "length exhaustingOpponents = 23" by (simp add: exhaustingOpponents_def)
  have p: "list_all (\<lambda>hand. length hand = 2) exhaustingOpponents"
    by (simp add: exhaustingOpponents_def)
  have ds: "distinct (?hero @ [] @ concat exhaustingOpponents)"
    by (simp add: exhaustingOpponents_def)
  have r: "validRandom (\<lambda>k. 0)" by (simp add: validRandom_def)
  have d: "deal (\<lambda>k. 0) ?hero [] exhaustingOpponents 0 0 = ([], ?fb, 5)" by code_simp
  have e: "evaluate7 (map Some ?hero @ ?fb) = None" by code_simp
  have u: "nat (max (2 - 1 - int (length exhaustingOpponents)) 0) = 0" unfolding l by simp
  have t: "trial (\<lambda>k. 0) ?hero [] exhaustingOpponents 0 0 = None"
    using e by (simp add: trial_def d showdown_def)
  have c: "calculateWinRate (\<lambda>k. 0) ?hero [] 2 exhaustingOpponents (Some 1) = None"
    unfolding calculateWinRate_def Let_def u using t by simp
  have tf: "trialFl fl (\<lambda>k. 0) ?hero [] exhaustingOpponents 0 acc 0 = None" for fl acc
    using e by (simp add: trialFl_def d showdownFl_def)
  have cf: "calculateWinRateFl fl (\<lambda>k. 0) ?hero [] 2 exhaustingOpponents (Some 1) = None" for fl
    unfolding calculateWinRateFl_def Let_def u using tf [of fl 0] by simp
  show ?thesis using l p ds r d c cf by simp
qed

theorem calculateWinRateFl_trials_witness:
  "validRandom (\<lambda>k. if k = 1 then 3 / 16 else 0)
   \<and> distinct ([\<lparr>rank = R2, suit = Su_c\<rparr>, \<lparr>rank = R3, suit = Su_d\<rparr>]
        @ [\<lparr>rank = RT, suit = Su_s\<rparr>, \<lparr>rank = RJ, suit = Su_s\<rparr>, \<lparr>rank = RQ, suit = Su_s\<rparr>,
           \<lparr>rank = RK, suit = Su_s\<rparr>]
        @ concat [[\<lparr>rank = R2, suit = Su_s\<rparr>, \<lparr>rank = R3, suit = Su_s\<rparr>],
                  [\<lparr>rank = R4, suit = Su_h\<rparr>, \<lparr>rank = R5, suit = Su_h\<rparr>],
                  [\<lparr>rank = R6, suit = Su_h\<rparr>, \<lparr>rank = R7, suit = Su_h\<rparr>]])
   \<and> trialCreditFl (\<lambda>x. x) (\<lambda>k. if k = 1 then 3 / 16 else 0)
        [\<lparr>rank = R2, suit = Su_c\<rparr>, \<lparr>rank = R3, suit = Su_d\<rparr>]
        [\<lparr>rank = RT, suit = Su_s\<rparr>, \<lparr>rank = RJ, suit = Su_s\<rparr>, \<lparr>rank = RQ, suit = Su_s\<rparr>,
         \<lparr>rank = RK, suit = Su_s\<rparr>]
        [[\<lparr>rank = R2, suit = Su_s\<rparr>, \<lparr>rank = R3, suit = Su_s\<rparr>],
         [\<lparr>rank = R4, suit = Su_h\<rparr>, \<lparr>rank = R5, suit = Su_h\<rparr>],
         [\<lparr>rank = R6, suit = Su_h\<rparr>, \<lparr>rank = R7, suit = Su_h\<rparr>]] 0 0 = Some (1 / 4)
   \<and> trialCreditFl (\<lambda>x. x) (\<lambda>k. if k = 1 then 3 / 16 else 0)
        [\<lparr>rank = R2, suit = Su_c\<rparr>, \<lparr>rank = R3, suit = Su_d\<rparr>]
        [\<lparr>rank = RT, suit = Su_s\<rparr>, \<lparr>rank = RJ, suit = Su_s\<rparr>, \<lparr>rank = RQ, suit = Su_s\<rparr>,
         \<lparr>rank = RK, suit = Su_s\<rparr>]
        [[\<lparr>rank = R2, suit = Su_s\<rparr>, \<lparr>rank = R3, suit = Su_s\<rparr>],
         [\<lparr>rank = R4, suit = Su_h\<rparr>, \<lparr>rank = R5, suit = Su_h\<rparr>],
         [\<lparr>rank = R6, suit = Su_h\<rparr>, \<lparr>rank = R7, suit = Su_h\<rparr>]] 0 1 = None
   \<and> calculateWinRateFl (\<lambda>x. x) (\<lambda>k. if k = 1 then 3 / 16 else 0)
        [\<lparr>rank = R2, suit = Su_c\<rparr>, \<lparr>rank = R3, suit = Su_d\<rparr>]
        [\<lparr>rank = RT, suit = Su_s\<rparr>, \<lparr>rank = RJ, suit = Su_s\<rparr>, \<lparr>rank = RQ, suit = Su_s\<rparr>,
         \<lparr>rank = RK, suit = Su_s\<rparr>] 2
        [[\<lparr>rank = R2, suit = Su_s\<rparr>, \<lparr>rank = R3, suit = Su_s\<rparr>],
         [\<lparr>rank = R4, suit = Su_h\<rparr>, \<lparr>rank = R5, suit = Su_h\<rparr>],
         [\<lparr>rank = R6, suit = Su_h\<rparr>, \<lparr>rank = R7, suit = Su_h\<rparr>]] (Some 2)
       = Some \<lparr>equity = Num (1 / 8), iterations = 2\<rparr>"
proof -
  let ?rnd = "\<lambda>k :: nat. if k = 1 then 3 / 16 else (0 :: real)"
  let ?hero = "[\<lparr>rank = R2, suit = Su_c\<rparr>, \<lparr>rank = R3, suit = Su_d\<rparr>]"
  let ?board = "[\<lparr>rank = RT, suit = Su_s\<rparr>, \<lparr>rank = RJ, suit = Su_s\<rparr>, \<lparr>rank = RQ, suit = Su_s\<rparr>,
         \<lparr>rank = RK, suit = Su_s\<rparr>]"
  let ?known = "[[\<lparr>rank = R2, suit = Su_s\<rparr>, \<lparr>rank = R3, suit = Su_s\<rparr>],
         [\<lparr>rank = R4, suit = Su_h\<rparr>, \<lparr>rank = R5, suit = Su_h\<rparr>],
         [\<lparr>rank = R6, suit = Su_h\<rparr>, \<lparr>rank = R7, suit = Su_h\<rparr>]]"
  have r: "validRandom ?rnd" by (simp add: validRandom_def)
  have ds: "distinct (?hero @ ?board @ concat ?known)" by simp
  have lh: "length ?hero = 2" and lb: "length ?board \<le> 5" by simp_all
  have lk: "\<forall>hand \<in> set ?known. length hand = 2" and k22: "length ?known \<le> 22" by simp_all
  have u: "(0::nat) = nat (max (2 - 1 - int (length ?known)) 0)" by simp
  have d: "(1::nat) = 2 * 0 + (5 - length ?board)" by simp
  have c0: "trialCreditFl (\<lambda>x. x) ?rnd ?hero ?board ?known 0 0 = Some (1 / 4)" by code_simp
  have c1: "trialCreditFl (\<lambda>x. x) ?rnd ?hero ?board ?known 0 1 = None" by code_simp
  have s: "foldl (addCredit (\<lambda>x. x)) 0
      (map (\<lambda>i. trialCreditFl (\<lambda>x. x) ?rnd ?hero ?board ?known 0 (i * 1)) [0..<2]) = 1 / 4"
    using c0 c1 by (simp add: numeral_2_eq_2 addCredit_def)
  have "calculateWinRateFl (\<lambda>x. x) ?rnd ?hero ?board 2 ?known (Some 2)
      = Some \<lparr>equity = Num ((\<lambda>x. x) (foldl (addCredit (\<lambda>x. x)) 0
                  (map (\<lambda>i. trialCreditFl (\<lambda>x. x) ?rnd ?hero ?board ?known 0 (i * 1)) [0..<2])
                / real 2)),
              iterations = 2\<rparr>"
    using calculateWinRateFl_trials [OF r lh lb _ _ lk ds k22 _ u d, of 2 "\<lambda>x. x"] by simp
  then have "calculateWinRateFl (\<lambda>x. x) ?rnd ?hero ?board 2 ?known (Some 2)
      = Some \<lparr>equity = Num (1 / 8), iterations = 2\<rparr>"
    unfolding s by simp
  with r ds c0 c1 show ?thesis by blast
qed

section \<open>Hands that cannot reach four of a kind\<close>

lemma count_list_filter: "count_list (map f xs) x = length (filter (\<lambda>c. f c = x) xs)"
  by (induction xs) simp_all

lemma fiveSubset_filter_length:
  assumes "fiveSubset h cs"
  shows "length (filter P h) \<le> length (filter P cs)"
proof -
  have d: "distinct h" and s: "set h \<subseteq> set cs" using assms by (simp_all add: fiveSubset_def)
  have "distinct (filter P h)" using d by simp
  then have "card (set (filter P h)) = length (filter P h)" by (rule distinct_card)
  moreover have "set (filter P h) \<subseteq> set (filter P cs)" using s by auto
  then have "card (set (filter P h)) \<le> card (set (filter P cs))"
    by (intro card_mono) simp_all
  moreover have "card (set (filter P cs)) \<le> length (filter P cs)" by (rule card_length)
  ultimately show ?thesis by linarith
qed

lemma no_flush:
  assumes "fiveSubset h cs" and "\<And>s. length (filter (\<lambda>c. suit c = s) cs) \<le> 4"
  shows "\<not> spec_flush h"
proof
  assume f: "spec_flush h"
  have l: "length h = 5" using assms(1) by (simp add: fiveSubset_def)
  then obtain c0 where c0: "c0 \<in> set h" by (cases h) auto
  have "\<forall>c \<in> set h. suit c = suit c0" using f c0 unfolding spec_flush_def by blast
  then have "filter (\<lambda>c. suit c = suit c0) h = h" unfolding filter_id_conv .
  then have "length (filter (\<lambda>c. suit c = suit c0) h) = 5" using l by simp
  moreover have "length (filter (\<lambda>c. suit c = suit c0) h) \<le> 4"
    using fiveSubset_filter_length [OF assms(1), of "\<lambda>c. suit c = suit c0"] assms(2) [of "suit c0"]
    by linarith
  ultimately show False by linarith
qed

lemma count_list_spec_ranks:
  "count_list (spec_ranks h) x = count_list (map (\<lambda>c. RANK_VALUE (rank c)) h) x"
proof -
  let ?rs = "map (\<lambda>c. RANK_VALUE (rank c)) h"
  have "mset (rev (sort ?rs)) = mset ?rs" by simp
  then have "count (mset (rev (sort ?rs))) x = count (mset ?rs) x" by (rule arg_cong)
  then show ?thesis unfolding count_mset spec_ranks_def .
qed

lemma no_quads:
  assumes "fiveSubset h cs"
    and "\<And>x. count_list (map (\<lambda>c. RANK_VALUE (rank c)) cs) x \<le> 3"
  shows "spec_groups (spec_ranks h) 4 = []"
proof -
  have "count_list (spec_ranks h) x \<noteq> 4" for x
    using fiveSubset_filter_length [OF assms(1), of "\<lambda>c. RANK_VALUE (rank c) = x"] assms(2) [of x]
    unfolding count_list_spec_ranks count_list_filter by linarith
  then show ?thesis unfolding spec_groups_def filter_empty_conv by blast
qed

lemma category_at_most_full_house:
  assumes "\<not> spec_flush h" and "spec_groups (spec_ranks h) 4 = []"
  shows "spec_category h \<le> 6"
proof -
  have branch: "(if p then x else y) \<le> (6::int)" if "x \<le> 6" "y \<le> 6" for p x y
    using that by simp
  have "spec_category h =
     (if spec_groups (spec_ranks h) 3 \<noteq> [] \<and> spec_groups (spec_ranks h) 2 \<noteq> [] then 6
      else if spec_straightHigh (spec_ranks h) \<noteq> None then 4
      else if spec_groups (spec_ranks h) 3 \<noteq> [] then 3
      else if length (spec_groups (spec_ranks h) 2) = 2 then 2
      else if spec_groups (spec_ranks h) 2 \<noteq> [] then 1
      else 0)"
    unfolding spec_category_def Let_def by (simp only: assms simp_thms if_False if_True)
  then show ?thesis by (simp only:) (intro branch; simp)
qed

section \<open>The four-deuces scenario\<close>

lemma not_deuce:
  assumes "c \<notin> set (fourDeucesHero @ fourDeucesBoard)"
  shows "rank c \<noteq> R2"
proof
  assume r: "rank c = R2"
  have "c = \<lparr>rank = rank c, suit = suit c\<rparr>" by simp
  then have "c = \<lparr>rank = R2, suit = suit c\<rparr>" using r by simp
  then have "c \<in> set (fourDeucesHero @ fourDeucesBoard)"
    by (cases "suit c") (simp_all add: fourDeucesHero_def fourDeucesBoard_def)
  with assms show False by simp
qed

lemma length2E:
  assumes "length ys = 2"
  obtains a b where "ys = [a, b]"
  using assms by (auto simp: length_Suc_conv eval_nat_numeral)

lemma fourDeuces_hero_rank:
  "evaluate7 (map Some (fourDeucesHero @ fourDeucesBoard)) = Some [7, 2, 13]"
  unfolding fourDeucesHero_def fourDeucesBoard_def by code_simp

lemma opponent_loses:
  assumes "length hand = 2" and "distinct (hand @ fourDeucesBoard)"
    and "set hand \<inter> set (fourDeucesHero @ fourDeucesBoard) = {}"
  shows "\<exists>r. evaluate7 (map Some (hand @ fourDeucesBoard)) = Some r
             \<and> compareRanks r [7, 2, 13] < 0"
proof -
  obtain a b where hand: "hand = [a, b]" using assms(1) by (rule length2E)
  have "a \<notin> set (fourDeucesHero @ fourDeucesBoard)" "b \<notin> set (fourDeucesHero @ fourDeucesBoard)"
    using assms(3) hand by auto
  then have "rank a \<noteq> R2" "rank b \<noteq> R2" by (simp_all only: not_deuce not_False_eq_True)
  then have nd: "RANK_VALUE (rank a) \<noteq> 2" "RANK_VALUE (rank b) \<noteq> 2"
    using RANK_VALUE_inj [of _ R2] by simp_all
  let ?cs = "hand @ fourDeucesBoard"
  have l: "length ?cs = 7" using assms(1) by (simp add: fourDeucesBoard_def)
  have suits: "length (filter (\<lambda>c. suit c = s) ?cs) \<le> 4" for s
    unfolding hand by (cases s) (simp_all add: fourDeucesBoard_def)
  have ranks: "count_list (map (\<lambda>c. RANK_VALUE (rank c)) ?cs) x \<le> 3" for x
    unfolding hand using nd by (simp add: fourDeucesBoard_def)
  obtain best h where b: "evaluate7 (map Some ?cs) = Some best" "fiveSubset h ?cs"
    "evaluate5 (map Some h) = Some best"
    using evaluate7_max [OF l assms(2)] by blast
  have "\<not> spec_flush h" using b(2) suits by (rule no_flush)
  moreover have "spec_groups (spec_ranks h) 4 = []" using b(2) ranks by (rule no_quads)
  ultimately have c: "spec_category h \<le> 6" by (rule category_at_most_full_house)
  have "length h = 5" using b(2) by (simp add: fiveSubset_def)
  then have "best = spec_category h # spec_tiebreak h"
    using b(3) evaluate5_spec [of h] by simp
  then have "get0 [7, 2, 13] 0 > get0 best 0" using c by simp
  then have "compareRanks [7, 2, 13] best > 0" by (rule compareRanks_category)
  then have "compareRanks best [7, 2, 13] < 0" using compareRanks_neg [of best "[7, 2, 13]"] by simp
  with b(1) show ?thesis by blast
qed

lemma spec_credit_win:
  assumes "\<forall>r \<in> set opps. compareRanks r heroRank < 0"
  shows "spec_credit heroRank opps = 1"
proof -
  let ?hands = "heroRank # opps"
  have top: "\<forall>r' \<in> set ?hands. compareRanks r' heroRank \<le> 0"
    using assms by (auto simp: compareRanks_refl less_imp_le)
  have "\<not> (\<forall>r' \<in> set ?hands. compareRanks r' r \<le> 0)" if "r \<in> set opps" for r
  proof -
    have "compareRanks heroRank r > 0" using assms that compareRanks_neg [of heroRank r] by auto
    then show ?thesis by auto
  qed
  then have "filter (\<lambda>r. \<forall>r' \<in> set ?hands. compareRanks r' r \<le> 0) opps = []"
    unfolding filter_empty_conv by blast
  then have "filter (\<lambda>r. \<forall>r' \<in> set ?hands. compareRanks r' r \<le> 0) ?hands = [heroRank]"
    using top by simp
  then show ?thesis unfolding spec_credit_def Let_def using top by simp
qed

lemma fourDeuces_trial:
  assumes "validRandom rnd"
    and "\<forall>hand \<in> set knownOpponents. length hand = 2"
    and "distinct (fourDeucesHero @ fourDeucesBoard @ concat knownOpponents)"
    and "2 * u + length (fourDeucesHero @ fourDeucesBoard @ concat knownOpponents) \<le> 52"
  shows "trial rnd fourDeucesHero fourDeucesBoard knownOpponents u k = Some (1, k + 2 * u)"
proof -
  let ?hero = fourDeucesHero and ?board = fourDeucesBoard
  have lh: "length ?hero = 2" and lb: "length ?board = 5"
    by (simp_all add: fourDeucesHero_def fourDeucesBoard_def)
  have cards: "2 * u + (5 - length ?board) + length (?hero @ ?board @ concat knownOpponents) \<le> 52"
    using assms(4) lb by simp
  have d: "2 * u = 2 * u + (5 - length ?board)" using lb by simp
  from trial_enough_cards [OF assms(1) lh _ assms(2,3) cards d, of k] lb
  obtain hs new where t:
    "deal rnd ?hero ?board knownOpponents u k
       = (map (map Some) hs, map Some (?board @ new), k + 2 * u)"
    "\<forall>h \<in> set hs. length h = 2" "length (?board @ new) = 5"
    "distinct (?hero @ ?board @ concat knownOpponents @ concat hs @ new)"
    "trial rnd ?hero ?board knownOpponents u k
       = Some (trialCredit rnd ?hero ?board knownOpponents u k, k + 2 * u)"
    by auto
  have new: "new = []" using t(3) lb by simp
  have dist: "distinct (?hero @ ?board @ concat (knownOpponents @ hs))"
    using t(4) new by simp
  have lose: "\<exists>r. evaluate7 (map Some (hand @ ?board)) = Some r \<and> compareRanks r [7, 2, 13] < 0"
    if hd: "hand \<in> set (knownOpponents @ hs)" for hand
  proof (rule opponent_loses)
    show "length hand = 2" using hd assms(2) t(2) by auto
    have sub: "set hand \<subseteq> set (concat (knownOpponents @ hs))" using hd by auto
    have "set (?hero @ ?board) \<inter> set (concat (knownOpponents @ hs)) = {}"
      using dist by auto
    then show disj: "set hand \<inter> set (?hero @ ?board) = {}" using sub by blast
    have "distinct (concat (knownOpponents @ hs))" using dist by (simp only: distinct_append)
    then have "distinct hand" using hd by (rule distinct_concat_member)
    moreover have "distinct ?board" using dist by (simp only: distinct_append)
    moreover have "set hand \<inter> set ?board = {}" using disj by auto
    ultimately show "distinct (hand @ ?board)" by (metis distinct_append)
  qed
  let ?opps = "map (map Some) knownOpponents @ map (map Some) hs"
  have "\<forall>r \<in> set (map (\<lambda>hand. the (evaluate7 (hand @ map Some ?board))) ?opps).
          compareRanks r [7, 2, 13] < 0"
  proof
    fix r assume "r \<in> set (map (\<lambda>hand. the (evaluate7 (hand @ map Some ?board))) ?opps)"
    then obtain hand where h: "hand \<in> set (knownOpponents @ hs)"
      "r = the (evaluate7 (map Some hand @ map Some ?board))" by auto
    from lose [OF h(1)] obtain r' where
      "evaluate7 (map Some (hand @ ?board)) = Some r'" "compareRanks r' [7, 2, 13] < 0" by blast
    then show "compareRanks r [7, 2, 13] < 0" using h(2) by simp
  qed
  then have "spec_credit [7, 2, 13]
      (map (\<lambda>hand. the (evaluate7 (hand @ map Some ?board))) ?opps) = 1"
    by (rule spec_credit_win)
  moreover have "the (evaluate7 (map Some ?hero @ map Some ?board)) = [7, 2, 13]"
    using fourDeuces_hero_rank by simp
  ultimately have "trialCredit rnd ?hero ?board knownOpponents u k = 1"
    unfolding trialCredit_def t(1) new by simp
  with t(5) show ?thesis by simp
qed

text \<open>
  C7. With the hero holding \<open>2c 2d\<close> on the board \<open>2h 2s Ks Qd Jd\<close>, \<open>calculateWinRate\<close>
  returns equity exactly 1, for every iteration count of at least 1 (and for the default
  of 5000), every number of players from 2 to 9, every list of known opponent hands of 2
  cards in which no card repeats, and every sequence of random values.
\<close>

theorem four_deuces_equity:
  assumes "validRandom rnd" and "2 \<le> numPlayers" and "numPlayers \<le> 9"
    and "\<forall>hand \<in> set knownOpponents. length hand = 2"
    and "distinct (fourDeucesHero @ fourDeucesBoard @ concat knownOpponents)"
    and "1 \<le> n"
  shows "calculateWinRate rnd fourDeucesHero fourDeucesBoard numPlayers knownOpponents (Some n)
           = Some \<lparr>equity = Num 1, iterations = n\<rparr>
       \<and> calculateWinRate rnd fourDeucesHero fourDeucesBoard numPlayers knownOpponents None
           = Some \<lparr>equity = Num 1, iterations = 5000\<rparr>"
proof -
  define u where "u = nat (max (numPlayers - 1 - int (length knownOpponents)) 0)"
  let ?ex = "fourDeucesHero @ fourDeucesBoard @ concat knownOpponents"
  have lk: "length (concat knownOpponents) = 2 * length knownOpponents"
    using assms(4) by (rule length_concat_pairs)
  have lex: "length ?ex = 7 + 2 * length knownOpponents"
    using lk by (simp add: fourDeucesHero_def fourDeucesBoard_def)
  have cards: "2 * u + length ?ex \<le> 52"
  proof (cases "u = 0")
    case True
    then show ?thesis using length_cards_le [OF assms(5)] by simp
  next
    case False
    then have "u + length knownOpponents \<le> 8" using assms(3) unfolding u_def by linarith
    then show ?thesis unfolding lex by simp
  qed
  have tr: "trial rnd fourDeucesHero fourDeucesBoard knownOpponents u k
      = Some ((\<lambda>_. 1) k, k + 2 * u)" for k
    using fourDeuces_trial [OF assms(1,4,5) cards] by simp
  have run: "trials rnd fourDeucesHero fourDeucesBoard knownOpponents u m 0 0 = Some (real m)"
    for m using trials_sum [OF tr, of m 0 0] by simp
  have "m \<noteq> 0 \<Longrightarrow> calculateWinRate rnd fourDeucesHero fourDeucesBoard numPlayers knownOpponents (Some m)
      = Some \<lparr>equity = Num 1, iterations = m\<rparr>" for m
    unfolding calculateWinRate_def Let_def u_def [symmetric] using run [of m] by simp
  moreover have "calculateWinRate rnd fourDeucesHero fourDeucesBoard numPlayers knownOpponents None
      = Some \<lparr>equity = Num 1, iterations = 5000\<rparr>"
    unfolding calculateWinRate_def Let_def u_def [symmetric] using run [of 5000] by simp
  ultimately show ?thesis using assms(6) by simp
qed

theorem four_deuces_equity_witness:
  "validRandom (\<lambda>k. 1 / 2)
   \<and> distinct (fourDeucesHero @ fourDeucesBoard
        @ concat [[\<lparr>rank = RK, suit = Su_h\<rparr>, \<lparr>rank = RK, suit = Su_d\<rparr>]])
   \<and> calculateWinRate (\<lambda>k. 1 / 2) fourDeucesHero fourDeucesBoard 4
        [[\<lparr>rank = RK, suit = Su_h\<rparr>, \<lparr>rank = RK, suit = Su_d\<rparr>]] (Some 3)
       = Some \<lparr>equity = Num 1, iterations = 3\<rparr>"
proof -
  let ?known = "[[\<lparr>rank = RK, suit = Su_h\<rparr>, \<lparr>rank = RK, suit = Su_d\<rparr>]]"
  have r: "validRandom (\<lambda>k. 1 / 2)" by (simp add: validRandom_def)
  have l: "\<forall>hand \<in> set ?known. length hand = 2" by simp
  have d: "distinct (fourDeucesHero @ fourDeucesBoard @ concat ?known)"
    by (simp add: fourDeucesHero_def fourDeucesBoard_def)
  have "calculateWinRate (\<lambda>k. 1 / 2) fourDeucesHero fourDeucesBoard 4 ?known (Some 3)
       = Some \<lparr>equity = Num 1, iterations = 3\<rparr>"
    using four_deuces_equity [OF r _ _ l d, of 4 3] by simp
  with r d show ?thesis by blast
qed

section \<open>The four-deuces scenario in the arithmetic of doubles\<close>

text \<open>
  The credit in the arithmetic of doubles is the rounded exact credit. In the four-deuces
  scenario every credit is 1 and the running sum is a whole number, so the result is
  the same under every rounding that keeps the whole numbers up to \<open>iterations\<close>, as
  the rounding to doubles does up to \<open>2^53\<close>.
\<close>

lemma spec_creditFl_of_credit:
  "spec_creditFl fl heroRank oppRanks
     = (if spec_credit heroRank oppRanks = 0 then None
        else Some (fl (spec_credit heroRank oppRanks)))"
proof (cases "\<forall>r' \<in> set (heroRank # oppRanks). compareRanks r' heroRank \<le> 0")
  case True
  then have "filter (\<lambda>r. \<forall>r' \<in> set (heroRank # oppRanks). compareRanks r' r \<le> 0)
      (heroRank # oppRanks) \<noteq> []"
    unfolding filter_empty_conv by (metis list.set_intros(1))
  then show ?thesis using True unfolding spec_creditFl_def spec_credit_def Let_def by simp
next
  case False
  then show ?thesis unfolding spec_creditFl_def spec_credit_def Let_def by simp
qed

lemma trialCreditFl_of_credit:
  "trialCreditFl fl rnd hero board knownOpponents u k
     = (if trialCredit rnd hero board knownOpponents u k = 0 then None
        else Some (fl (trialCredit rnd hero board knownOpponents u k)))"
  unfolding trialCreditFl_def trialCredit_def
  by (simp add: spec_creditFl_of_credit split: prod.splits)

lemma fourDeuces_trialFl:
  assumes "validRandom rnd"
    and "\<forall>hand \<in> set knownOpponents. length hand = 2"
    and "distinct (fourDeucesHero @ fourDeucesBoard @ concat knownOpponents)"
    and "2 * u + length (fourDeucesHero @ fourDeucesBoard @ concat knownOpponents) \<le> 52"
  shows "trialFl fl rnd fourDeucesHero fourDeucesBoard knownOpponents u acc k
           = Some (fl (acc + fl 1), k + 2 * u)"
proof -
  let ?hero = fourDeucesHero and ?board = fourDeucesBoard
  have lh: "length ?hero = 2" and lb: "length ?board \<le> 5" "length ?board = 5"
    by (simp_all add: fourDeucesHero_def fourDeucesBoard_def)
  have cards: "2 * u + (5 - length ?board) + length (?hero @ ?board @ concat knownOpponents) \<le> 52"
    using assms(4) lb by simp
  have d: "2 * u = 2 * u + (5 - length ?board)" using lb by simp
  have "trial rnd ?hero ?board knownOpponents u k
      = Some (trialCredit rnd ?hero ?board knownOpponents u k, k + 2 * u)"
    using trial_enough_cards [OF assms(1) lh lb(1) assms(2,3) cards d, of k] by blast
  then have c: "trialCredit rnd ?hero ?board knownOpponents u k = 1"
    using fourDeuces_trial [OF assms, of k] by simp
  show ?thesis
    using trialFl_enough_cards [OF assms(1) lh lb(1) assms(2,3) cards d, of fl acc k]
    by (simp add: trialCreditFl_of_credit c addCredit_def)
qed

lemma trialsFl_whole:
  assumes "\<And>acc k. trialFl fl rnd hero board knownOpponents u acc k = Some (fl (acc + fl 1), k + d)"
    and "\<forall>m \<le> a + n. fl (real m) = real m"
  shows "trialsFl fl rnd hero board knownOpponents u n (real a) k = Some (real (a + n))"
  using assms(2)
proof (induction n arbitrary: a k)
  case 0
  then show ?case by simp
next
  case (Suc n)
  have "1 \<le> a + Suc n" "a + 1 \<le> a + Suc n" by simp_all
  then have "fl (real 1) = real 1" "fl (real (a + 1)) = real (a + 1)"
    using Suc.prems by blast+
  then have s: "fl (real a + fl 1) = real (Suc a)" by (simp add: add.commute)
  have "\<forall>m \<le> Suc a + n. fl (real m) = real m" using Suc.prems by simp
  from Suc.IH [OF this, of "k + d"] show ?case
    using assms(1) [of "real a" k] s by simp
qed

lemma fourDeuces_rounded:
  assumes "validRandom rnd" and "2 \<le> numPlayers" and "numPlayers \<le> 9"
    and "\<forall>hand \<in> set knownOpponents. length hand = 2"
    and "distinct (fourDeucesHero @ fourDeucesBoard @ concat knownOpponents)"
    and "1 \<le> n" and "\<forall>m \<le> n. fl (real m) = real m"
  shows "calculateWinRateFl fl rnd fourDeucesHero fourDeucesBoard numPlayers knownOpponents (Some n)
           = Some \<lparr>equity = Num 1, iterations = n\<rparr>"
proof -
  define u where "u = nat (max (numPlayers - 1 - int (length knownOpponents)) 0)"
  let ?ex = "fourDeucesHero @ fourDeucesBoard @ concat knownOpponents"
  have lk: "length (concat knownOpponents) = 2 * length knownOpponents"
    using assms(4) by (rule length_concat_pairs)
  have lex: "length ?ex = 7 + 2 * length knownOpponents"
    using lk by (simp add: fourDeucesHero_def fourDeucesBoard_def)
  have cards: "2 * u + length ?ex \<le> 52"
  proof (cases "u = 0")
    case True
    then show ?thesis using length_cards_le [OF assms(5)] by simp
  next
    case False
    then have "u + length knownOpponents \<le> 8" using assms(3) unfolding u_def by linarith
    then show ?thesis unfolding lex by simp
  qed
  have tr: "trialFl fl rnd fourDeucesHero fourDeucesBoard knownOpponents u acc k
      = Some (fl (acc + fl 1), k + 2 * u)" for acc k
    by (rule fourDeuces_trialFl [OF assms(1,4,5) cards])
  have "\<forall>m \<le> 0 + n. fl (real m) = real m" using assms(7) by simp
  from trialsFl_whole [OF tr this, of 0]
  have run: "trialsFl fl rnd fourDeucesHero fourDeucesBoard knownOpponents u n 0 0 = Some (real n)"
    by simp
  have "fl (real 1) = real 1" using assms(6,7) by blast
  then have one: "fl 1 = 1" by simp
  show ?thesis
    unfolding calculateWinRateFl_def Let_def u_def [symmetric] using run assms(6) one by simp
qed

section \<open>Validation: the engine and its caller\<close>

lemma toKey_inj: "toKey a = toKey b \<longleftrightarrow> a = b"
  using cardToString_inj [of a b] by (simp add: toKey_def cardToString_def)

lemma hasDuplicateLoop_iff:
  "hasDuplicateLoop seen cards \<longleftrightarrow> \<not> distinct cards \<or> (\<exists>c \<in> set cards. toKey c \<in> seen)"
  by (induction cards arbitrary: seen) (auto simp: toKey_inj)

lemma hasDuplicate_iff: "hasDuplicate cards \<longleftrightarrow> \<not> distinct cards"
  by (simp add: hasDuplicate_def hasDuplicateLoop_iff)

lemma canCalculate_iff:
  "canCalculate heroCards knownOpponents
     \<longleftrightarrow> length (compactCards heroCards) = 2
         \<and> (\<forall>hand \<in> set knownOpponents. length (compactCards hand) = 2)"
  by (auto simp: canCalculate_def list_ex_iff)

text \<open>
  C1, as the code has it. \<open>calculateWinRate\<close> validates nothing; the preconditions are
  kept by its caller. The effect that runs the estimator calls it only when the hero has
  exactly 2 cards and every known-opponent hand has exactly 2 cards, and otherwise clears
  the displayed equity without a call. A card that repeats an assigned card is refused by
  the handlers that set a hero, board or opponent card: they return \<open>false\<close> and change
  nothing but the error message. With as many known opponents as \<open>numPlayers - 1\<close> or
  more, the count of unknown opponents is clamped at 0: the engine runs its trials with
  that count, and a trial then draws no unknown opponent hand.
\<close>

theorem validation_by_caller:
  "canCalculate heroCards knownOpponents
     = (length (compactCards heroCards) = 2
        \<and> (\<forall>hand \<in> set knownOpponents. length (compactCards hand) = 2))
   \<and> (\<not> canCalculate (s_heroCards st) (s_knownOpponents st)
        \<longrightarrow> recompute rnd st = Some (st\<lparr>s_equity := None\<rparr>))
   \<and> (canCalculate (s_heroCards st) (s_knownOpponents st)
        \<longrightarrow> recompute rnd st =
            map_option (\<lambda>result. st\<lparr>s_equity := Some (equity result),
                                      s_iterations := iterations result\<rparr>)
              (calculateWinRate rnd (compactCards (s_heroCards st))
                 (compactCards (s_boardCards st)) (s_numPlayers st)
                 (map compactCards (s_knownOpponents st)) (Some 5000)))
   \<and> hasDuplicate cards = (\<not> distinct cards)
   \<and> (\<not> distinct (compactCards (js_set (s_heroCards st) i crd) @ compactCards (s_boardCards st)
                     @ concat (map compactCards (s_knownOpponents st)))
        \<longrightarrow> handleHeroSet st i crd = (False, st\<lparr>s_error := ''Duplicate card detected.''\<rparr>))
   \<and> (\<not> distinct (compactCards (s_heroCards st) @ compactCards (js_set (s_boardCards st) i crd)
                     @ concat (map compactCards (s_knownOpponents st)))
        \<longrightarrow> handleBoardSet st i crd = (False, st\<lparr>s_error := ''Duplicate card detected.''\<rparr>))
   \<and> (j < length (s_knownOpponents st)
        \<and> \<not> distinct (compactCards (s_heroCards st) @ compactCards (s_boardCards st)
                     @ concat (map compactCards
                         ((s_knownOpponents st)[j := js_set (s_knownOpponents st ! j) i crd])))
        \<longrightarrow> handleOpponentSet st j i crd
              = Some (False, st\<lparr>s_error := ''Duplicate card detected.''\<rparr>))
   \<and> (numPlayers - 1 \<le> int (length opponents)
        \<longrightarrow> nat (max (numPlayers - 1 - int (length opponents)) 0) = 0
            \<and> calculateWinRate rnd hero board numPlayers opponents (Some n)
                = map_option
                    (\<lambda>total. \<lparr>equity = (if n = 0 then NaN else Num (total / real n)),
                                iterations = n\<rparr>)
                    (trials rnd hero board opponents 0 n 0 0)
            \<and> fst (deal rnd hero board opponents
                      (nat (max (numPlayers - 1 - int (length opponents)) 0)) k) = [])"
proof -
  have 1: "recompute rnd st = Some (st\<lparr>s_equity := None\<rparr>)"
    if "\<not> canCalculate (s_heroCards st) (s_knownOpponents st)"
    using that by (simp add: recompute_def)
  have 2: "recompute rnd st =
            map_option (\<lambda>result. st\<lparr>s_equity := Some (equity result),
                                      s_iterations := iterations result\<rparr>)
              (calculateWinRate rnd (compactCards (s_heroCards st))
                 (compactCards (s_boardCards st)) (s_numPlayers st)
                 (map compactCards (s_knownOpponents st)) (Some 5000))"
    if "canCalculate (s_heroCards st) (s_knownOpponents st)"
    using that
    by (cases "calculateWinRate rnd (compactCards (s_heroCards st))
                 (compactCards (s_boardCards st)) (s_numPlayers st)
                 (map compactCards (s_knownOpponents st)) (Some 5000)")
       (simp_all add: recompute_def)
  have 3: "handleHeroSet st i crd = (False, st\<lparr>s_error := ''Duplicate card detected.''\<rparr>)"
    if "\<not> distinct (compactCards (js_set (s_heroCards st) i crd) @ compactCards (s_boardCards st)
                     @ concat (map compactCards (s_knownOpponents st)))"
    using that by (simp add: handleHeroSet_def Let_def hasDuplicate_iff)
  have 4: "handleBoardSet st i crd = (False, st\<lparr>s_error := ''Duplicate card detected.''\<rparr>)"
    if "\<not> distinct (compactCards (s_heroCards st) @ compactCards (js_set (s_boardCards st) i crd)
                     @ concat (map compactCards (s_knownOpponents st)))"
    using that by (simp add: handleBoardSet_def Let_def hasDuplicate_iff)
  have 5: "handleOpponentSet st j i crd
              = Some (False, st\<lparr>s_error := ''Duplicate card detected.''\<rparr>)"
    if "j < length (s_knownOpponents st)"
      "\<not> distinct (compactCards (s_heroCards st) @ compactCards (s_boardCards st)
                     @ concat (map compactCards
                         ((s_knownOpponents st)[j := js_set (s_knownOpponents st ! j) i crd])))"
  proof -
    have "js_nth (s_knownOpponents st) j = Some (s_knownOpponents st ! j)"
      using that(1) by (simp add: js_nth_def)
    then show ?thesis
      using that(2) by (simp add: handleOpponentSet_def Let_def hasDuplicate_iff)
  qed
  have 6: "nat (max (numPlayers - 1 - int (length opponents)) 0) = 0
            \<and> calculateWinRate rnd hero board numPlayers opponents (Some n)
                = map_option
                    (\<lambda>total. \<lparr>equity = (if n = 0 then NaN else Num (total / real n)),
                                iterations = n\<rparr>)
                    (trials rnd hero board opponents 0 n 0 0)
            \<and> fst (deal rnd hero board opponents
                      (nat (max (numPlayers - 1 - int (length opponents)) 0)) k) = []"
    if c: "numPlayers - 1 \<le> int (length opponents)"
  proof -
    have u: "nat (max (numPlayers - 1 - int (length opponents)) 0) = 0" using c by simp
    have e: "calculateWinRate rnd hero board numPlayers opponents (Some n)
                = map_option
                    (\<lambda>total. \<lparr>equity = (if n = 0 then NaN else Num (total / real n)),
                                iterations = n\<rparr>)
                    (trials rnd hero board opponents 0 n 0 0)"
      unfolding calculateWinRate_def Let_def u
      by (cases "trials rnd hero board opponents 0 n 0 0") simp_all
    have d: "fst (deal rnd hero board opponents 0 k) = []"
      by (simp add: deal_def Let_def split: prod.splits)
    show ?thesis using u e d by simp
  qed
  show ?thesis
    by (intro conjI impI canCalculate_iff hasDuplicate_iff 1 2 3 4; (elim conjE)?;
        (rule 5 | rule 6 [THEN conjunct1] | rule 6 [THEN conjunct2, THEN conjunct1]
          | rule 6 [THEN conjunct2, THEN conjunct2])?; assumption?)
qed

text \<open>
  The claim as worded has the engine reject the input. With the hero and a known
  opponent holding the same two cards, \<open>calculateWinRate\<close> runs its trial and returns
  a result.
\<close>

theorem engine_accepts_duplicate_counterexample:
  "\<not> distinct ([\<lparr>rank = RA, suit = Su_s\<rparr>, \<lparr>rank = RA, suit = Su_c\<rparr>] @ []
        @ concat [[\<lparr>rank = RA, suit = Su_s\<rparr>, \<lparr>rank = RA, suit = Su_c\<rparr>]])
   \<and> calculateWinRate (\<lambda>k. 0) [\<lparr>rank = RA, suit = Su_s\<rparr>, \<lparr>rank = RA, suit = Su_c\<rparr>] [] 2
        [[\<lparr>rank = RA, suit = Su_s\<rparr>, \<lparr>rank = RA, suit = Su_c\<rparr>]] (Some 1)
       = Some \<lparr>equity = Num (1 / 2), iterations = 1\<rparr>"
proof -
  have "calculateWinRate (\<lambda>k. 0) [\<lparr>rank = RA, suit = Su_s\<rparr>, \<lparr>rank = RA, suit = Su_c\<rparr>] [] 2
        [[\<lparr>rank = RA, suit = Su_s\<rparr>, \<lparr>rank = RA, suit = Su_c\<rparr>]] (Some 1)
       = Some \<lparr>equity = Num (1 / 2), iterations = 1\<rparr>"
    by code_simp
  then show ?thesis by simp
qed

theorem validation_by_caller_witness:
  "\<not> canCalculate [Some \<lparr>rank = RA, suit = Su_s\<rparr>, None] []
   \<and> recompute (\<lambda>k. 0)
        \<lparr>s_numPlayers = 6, s_heroCards = [Some \<lparr>rank = RA, suit = Su_s\<rparr>, None],
         s_boardCards = [None, None, None, None, None], s_knownOpponents = [],
         s_error = [], s_equity = Some (Num 1), s_iterations = 5000\<rparr>
       = Some \<lparr>s_numPlayers = 6, s_heroCards = [Some \<lparr>rank = RA, suit = Su_s\<rparr>, None],
               s_boardCards = [None, None, None, None, None], s_knownOpponents = [],
               s_error = [], s_equity = None, s_iterations = 5000\<rparr>
   \<and> handleBoardSet
        \<lparr>s_numPlayers = 6, s_heroCards = [Some \<lparr>rank = RA, suit = Su_s\<rparr>, None],
         s_boardCards = [None, None, None, None, None], s_knownOpponents = [],
         s_error = [], s_equity = Some (Num 1), s_iterations = 5000\<rparr>
        0 \<lparr>rank = RA, suit = Su_s\<rparr>
       = (False,
          \<lparr>s_numPlayers = 6, s_heroCards = [Some \<lparr>rank = RA, suit = Su_s\<rparr>, None],
           s_boardCards = [None, None, None, None, None], s_knownOpponents = [],
           s_error = ''Duplicate card detected.'', s_equity = Some (Num 1),
           s_iterations = 5000\<rparr>)
   \<and> 2 - 1 \<le> int (length [[\<lparr>rank = RK, suit = Su_s\<rparr>, \<lparr>rank = RK, suit = Su_h\<rparr>],
                            [\<lparr>rank = RQ, suit = Su_s\<rparr>, \<lparr>rank = RQ, suit = Su_h\<rparr>],
                            [\<lparr>rank = RJ, suit = Su_s\<rparr>, \<lparr>rank = RJ, suit = Su_h\<rparr>]])
   \<and> fst (deal (\<lambda>k. 0) [\<lparr>rank = RA, suit = Su_s\<rparr>, \<lparr>rank = RA, suit = Su_h\<rparr>] []
          [[\<lparr>rank = RK, suit = Su_s\<rparr>, \<lparr>rank = RK, suit = Su_h\<rparr>],
           [\<lparr>rank = RQ, suit = Su_s\<rparr>, \<lparr>rank = RQ, suit = Su_h\<rparr>],
           [\<lparr>rank = RJ, suit = Su_s\<rparr>, \<lparr>rank = RJ, suit = Su_h\<rparr>]]
          (nat (max (2 - 1 - int (length
             [[\<lparr>rank = RK, suit = Su_s\<rparr>, \<lparr>rank = RK, suit = Su_h\<rparr>],
              [\<lparr>rank = RQ, suit = Su_s\<rparr>, \<lparr>rank = RQ, suit = Su_h\<rparr>],
              [\<lparr>rank = RJ, suit = Su_s\<rparr>, \<lparr>rank = RJ, suit = Su_h\<rparr>]])) 0)) 0) = []"
proof -
  let ?opps = "[[\<lparr>rank = RK, suit = Su_s\<rparr>, \<lparr>rank = RK, suit = Su_h\<rparr>],
                [\<lparr>rank = RQ, suit = Su_s\<rparr>, \<lparr>rank = RQ, suit = Su_h\<rparr>],
                [\<lparr>rank = RJ, suit = Su_s\<rparr>, \<lparr>rank = RJ, suit = Su_h\<rparr>]]"
  let ?st = "\<lparr>s_numPlayers = 6, s_heroCards = [Some \<lparr>rank = RA, suit = Su_s\<rparr>, None],
         s_boardCards = [None, None, None, None, None], s_knownOpponents = [],
         s_error = [], s_equity = Some (Num 1), s_iterations = 5000\<rparr>"
  note t = validation_by_caller [where st = ?st and rnd = "\<lambda>k. 0"
      and heroCards = "[Some \<lparr>rank = RA, suit = Su_s\<rparr>, None]" and knownOpponents = "[]"
      and i = 0 and crd = "\<lparr>rank = RA, suit = Su_s\<rparr>"
      and numPlayers = 2 and opponents = ?opps and k = 0
      and hero = "[\<lparr>rank = RA, suit = Su_s\<rparr>, \<lparr>rank = RA, suit = Su_h\<rparr>]" and board = "[]"]
  have c: "\<not> canCalculate [Some \<lparr>rank = RA, suit = Su_s\<rparr>, None] []"
    using t by (simp add: compactCards_def)
  then have "\<not> canCalculate (s_heroCards ?st) (s_knownOpponents ?st)" by simp
  with t have r: "recompute (\<lambda>k. 0) ?st = Some (?st\<lparr>s_equity := None\<rparr>)" by blast
  have "\<not> distinct (compactCards (s_heroCards ?st)
      @ compactCards (js_set (s_boardCards ?st) 0 \<lparr>rank = RA, suit = Su_s\<rparr>)
      @ concat (map compactCards (s_knownOpponents ?st)))"
    by (simp add: compactCards_def js_set_def)
  with t have h: "handleBoardSet ?st 0 \<lparr>rank = RA, suit = Su_s\<rparr>
      = (False, ?st\<lparr>s_error := ''Duplicate card detected.''\<rparr>)" by blast
  have k: "2 - 1 \<le> int (length ?opps)" by simp
  with t have u: "fst (deal (\<lambda>k. 0) [\<lparr>rank = RA, suit = Su_s\<rparr>, \<lparr>rank = RA, suit = Su_h\<rparr>] []
      ?opps (nat (max (2 - 1 - int (length ?opps)) 0)) 0) = []" by blast
  show ?thesis using c r h k u by simp
qed

end
